theory Spec2Isabelle
  imports Main
begin

section \<open>The model/spec reconciliation step (validate-rest-spec.ts)\<close>

text \<open>
  This theory embeds \<^verbatim>\<open>src/specification/compiler/steps/validate-rest-spec.ts\<close>:
  the lookup \<^verbatim>\<open>getDefinition\<close>, the recursive flattening \<^verbatim>\<open>getProperties\<close> and the
  driver \<^verbatim>\<open>validateRestSpec\<close>.

  \<^item> A thrown error is the \<open>Inl\<close> side of a sum.
  \<^item> \<^verbatim>\<open>console.warn\<close> is an append to a log of diagnostics, threaded through the loop
    over the endpoints, so that what was printed before a throw stays in the log.
  \<^item> \<^verbatim>\<open>getProperties\<close> has no cycle guard and need not return. It is given a fuel
    argument, the number of nested calls it may make; \<open>None\<close> says that the fuel did
    not suffice.
\<close>

subsection \<open>The type model (metamodel.ts) and the JSON spec (json-spec.ts)\<close>

text \<open>
  The declarations of \<^verbatim>\<open>../model/metamodel\<close> and \<^verbatim>\<open>../model/json-spec\<close> are imported by
  validate-rest-spec.ts and are not among the source files. Each record below is
  modelled from section 3 (data model) and section 6 (external interfaces) of the
  specification, and keeps the fields that validate-rest-spec.ts reads, under the names
  it reads them by (prefixed by the record, as several records share a field name).
\<close>

text \<open>Modelled from the spec: \<^verbatim>\<open>TypeName\<close> of metamodel.ts, the \<^verbatim>\<open>{ name, namespace }\<close> of
  \<^verbatim>\<open>type.name\<close>, \<^verbatim>\<open>endpoint.request\<close> and \<^verbatim>\<open>inherit.type\<close>.\<close>

record TypeName =
  tn_name :: string
  tn_namespace :: string

text \<open>Modelled from the spec: \<^verbatim>\<open>Property\<close> of metamodel.ts, "identified by a name (string);
  no other attribute is inspected".\<close>

record Property =
  prop_name :: string

text \<open>Modelled from the spec: an entry of \<^verbatim>\<open>inherits\<close> in metamodel.ts, a reference by name;
  only \<^verbatim>\<open>inherit.type.name\<close> is read.\<close>

record Inherits =
  inh_type :: TypeName

text \<open>Modelled from the spec: \<^verbatim>\<open>Request\<close> of metamodel.ts, with "three property groups:
  path, query, and an optional body marker (presence, not content)" and "zero or more
  inherits references". The code tests \<^verbatim>\<open>definition.body != null\<close> and
  \<^verbatim>\<open>Array.isArray(definition.inherits)\<close>: both fields are optional.\<close>

record Request =
  req_name :: TypeName
  req_path :: "Property list"
  req_query :: "Property list"
  req_body :: "unit option"
  req_inherits :: "Inherits list option"

text \<open>Modelled from the spec: \<^verbatim>\<open>Interface\<close> of metamodel.ts, with "a single undifferentiated
  properties sequence and no body marker".\<close>

record Interface =
  if_name :: TypeName
  if_properties :: "Property list"
  if_inherits :: "Inherits list option"

text \<open>Modelled from the spec: \<^verbatim>\<open>model.Request | model.Interface\<close>, the argument type of
  \<^verbatim>\<open>getProperties\<close>, and the elements of \<^verbatim>\<open>model.types\<close> ("Request/Interface/other
  kinds"), whose \<^verbatim>\<open>kind\<close> may also be neither \<^verbatim>\<open>'request'\<close> nor \<^verbatim>\<open>'interface'\<close>.\<close>

datatype Definition = RequestDef Request | InterfaceDef Interface

datatype TypeDefinition = RequestOrInterface Definition | OtherKind TypeName

text \<open>Modelled from the spec: \<^verbatim>\<open>Endpoint\<close> of metamodel.ts, "identified by a unique name;
  optionally references a Request type by name".\<close>

record Endpoint =
  ep_name :: string
  ep_request :: "TypeName option"

text \<open>Modelled from the spec: \<^verbatim>\<open>Model\<close> of metamodel.ts, "endpoints (ordered sequence) and
  types".\<close>

record Model =
  endpoints :: "Endpoint list"
  types :: "TypeDefinition list"

text \<open>Modelled from the spec: the objects \<^verbatim>\<open>parts\<close> and \<^verbatim>\<open>params\<close> of json-spec.ts,
  mappings "of parameter name to metadata" of which only the keys are read
  (\<^verbatim>\<open>Object.keys\<close>). An object is represented by the list of its keys in enumeration
  order.\<close>

type_synonym JsObject = "string list"

definition Object_keys :: "JsObject \<Rightarrow> string list" where
  "Object_keys obj = obj"

text \<open>Modelled from the spec: an element of \<^verbatim>\<open>url.paths\<close> in json-spec.ts, "each optionally
  carrying a set of named path parts".\<close>

record UrlPath =
  up_parts :: "JsObject option"

text \<open>Modelled from the spec: \<^verbatim>\<open>body\<close> of json-spec.ts, "optional, and when present
  carries a required flag".\<close>

record JsonBody =
  jb_required :: bool

text \<open>Modelled from the spec: \<^verbatim>\<open>JsonSpec\<close> of json-spec.ts, with \<^verbatim>\<open>url.paths\<close>, the optional
  \<^verbatim>\<open>params\<close> and the optional \<^verbatim>\<open>body\<close>.\<close>

record JsonSpec =
  js_url_paths :: "UrlPath list"
  js_params :: "JsObject option"
  js_body :: "JsonBody option"

subsection \<open>Errors, diagnostics, flattened properties\<close>

text \<open>
  \<open>DefinitionNotFound name\<close>: \<^verbatim>\<open>throw new Error(`Can't find the request definiton for ${name}`)\<close>;
  \<open>SpecNotFound name\<close>: the failed \<^verbatim>\<open>assert(spec, `Can't find the json spec for ${endpoint.name}`)\<close>;
  \<open>AssertionFailed\<close>: the failed \<^verbatim>\<open>assert(path.parts != null)\<close> of the flatMap callback.
\<close>

datatype error = DefinitionNotFound string | SpecNotFound string | AssertionFailed

text \<open>
  One constructor for each of the six \<^verbatim>\<open>console.warn\<close> templates, in the order of the
  source; the first argument is \<^verbatim>\<open>endpoint.request.name\<close>, the second the parameter.
\<close>

datatype Diagnostic =
    PathNotInSpec string string
  | PathNotInModel string string
  | QueryNotInSpec string string
  | QueryNotInModel string string
  | ShouldNotIncludeBody string
  | ShouldIncludeBody string

datatype Body = noBody | yesBody

record Flattened =
  fl_path :: "Property list"
  fl_query :: "Property list"
  fl_body :: Body

definition LOG :: string where
  "LOG = ''ALL''"

subsection \<open>getDefinition\<close>

fun def_name :: "Definition \<Rightarrow> TypeName" where
  "def_name (RequestDef r) = req_name r"
| "def_name (InterfaceDef i) = if_name i"

fun def_inherits :: "Definition \<Rightarrow> Inherits list option" where
  "def_inherits (RequestDef r) = req_inherits r"
| "def_inherits (InterfaceDef i) = if_inherits i"

fun getDefinition :: "TypeDefinition list \<Rightarrow> string \<Rightarrow> error + Definition" where
  "getDefinition [] name = Inl (DefinitionNotFound name)"
| "getDefinition (RequestOrInterface d # rest) name =
     (if tn_name (def_name d) = name then Inr d else getDefinition rest name)"
| "getDefinition (OtherKind _ # rest) name = getDefinition rest name"

text \<open>\<^verbatim>\<open>definition.inherits.map(inherit => getDefinition(inherit.type.name))\<close>:
  the first name that is not found throws, before any ancestor is flattened.\<close>

fun getDefinitions :: "TypeDefinition list \<Rightarrow> Inherits list \<Rightarrow> error + Definition list" where
  "getDefinitions tys [] = Inr []"
| "getDefinitions tys (inherit # rest) =
     (case getDefinition tys (tn_name (inh_type inherit)) of
        Inl e \<Rightarrow> Inl e
      | Inr d \<Rightarrow> (case getDefinitions tys rest of
                   Inl e \<Rightarrow> Inl e
                 | Inr ds \<Rightarrow> Inr (d # ds)))"

subsection \<open>getProperties\<close>

text \<open>Lines 113 to 133: the entity's own path, query and body.\<close>

fun ownProperties :: "Definition \<Rightarrow> Flattened" where
  "ownProperties (RequestDef definition) =
     \<lparr> fl_path = (if length (req_path definition) > 0 then [] @ req_path definition else []),
       fl_query = (if length (req_query definition) > 0 then [] @ req_query definition else []),
       fl_body = (if req_body definition \<noteq> None then yesBody else noBody) \<rparr>"
| "ownProperties (InterfaceDef definition) =
     \<lparr> fl_path = [],
       fl_query = (if length (if_properties definition) > 0 then [] @ if_properties definition else []),
       fl_body = noBody \<rparr>"

text \<open>Lines 139 to 149: one round of the loop over the resolved ancestors.\<close>

definition absorb :: "Flattened \<Rightarrow> Flattened \<Rightarrow> Flattened" where
  "absorb acc properties =
     \<lparr> fl_path = (if length (fl_path properties) > 0 then fl_path acc @ fl_path properties
                  else fl_path acc),
       fl_query = (if length (fl_query properties) > 0 then fl_query acc @ fl_query properties
                   else fl_query acc),
       fl_body = (if fl_body acc \<noteq> fl_body properties then fl_body properties
                  else fl_body acc) \<rparr>"

text \<open>The loop \<^verbatim>\<open>for (const inherit of inherits)\<close>; \<open>rec\<close> is the recursive call.\<close>

fun inheritLoop :: "(Definition \<Rightarrow> (error + Flattened) option) \<Rightarrow> Definition list
    \<Rightarrow> Flattened \<Rightarrow> (error + Flattened) option" where
  "inheritLoop rec [] acc = Some (Inr acc)"
| "inheritLoop rec (inherit # rest) acc =
     (case rec inherit of
        None \<Rightarrow> None
      | Some (Inl e) \<Rightarrow> Some (Inl e)
      | Some (Inr properties) \<Rightarrow> inheritLoop rec rest (absorb acc properties))"

primrec getProperties :: "nat \<Rightarrow> TypeDefinition list \<Rightarrow> Definition
    \<Rightarrow> (error + Flattened) option" where
  "getProperties 0 tys definition = None"
| "getProperties (Suc fuel) tys definition =
     (case def_inherits definition of
        None \<Rightarrow> Some (Inr (ownProperties definition))
      | Some inhs \<Rightarrow>
          (case getDefinitions tys inhs of
             Inl e \<Rightarrow> Some (Inl e)
           | Inr inherits \<Rightarrow>
               inheritLoop (getProperties fuel tys) inherits (ownProperties definition)))"

subsection \<open>validateRestSpec\<close>

text \<open>Lines 48 to 54. The callback of flatMap, with its assertion:\<close>

fun flatMapParts :: "UrlPath list \<Rightarrow> error + string list" where
  "flatMapParts [] = Inr []"
| "flatMapParts (path # rest) =
     (case up_parts path of
        None \<Rightarrow> Inl AssertionFailed
      | Some parts \<Rightarrow> (case flatMapParts rest of
                        Inl e \<Rightarrow> Inl e
                      | Inr ks \<Rightarrow> Inr (Object_keys parts @ ks)))"

text \<open>\<^verbatim>\<open>Array.from(new Set(xs))\<close>: a Set keeps the first occurrence of each element, in
  insertion order.\<close>

definition Set_add :: "string list \<Rightarrow> string \<Rightarrow> string list" where
  "Set_add s x = (if x \<in> set s then s else s @ [x])"

definition Array_from_Set :: "string list \<Rightarrow> string list" where
  "Array_from_Set xs = foldl Set_add [] xs"

definition urlPartsOf :: "JsonSpec \<Rightarrow> error + string list" where
  "urlPartsOf spec =
     (case flatMapParts (filter (\<lambda>path. up_parts path \<noteq> None) (js_url_paths spec)) of
        Inl e \<Rightarrow> Inl e
      | Inr ks \<Rightarrow> Inr (Array_from_Set ks))"

text \<open>The four loops \<^verbatim>\<open>for (const name of xs) if (!ys.includes(name)) console.warn(...)\<close>.\<close>

definition warnAbsent :: "(string \<Rightarrow> Diagnostic) \<Rightarrow> string list \<Rightarrow> string list
    \<Rightarrow> Diagnostic list" where
  "warnAbsent mk xs ys = map mk (filter (\<lambda>name. name \<notin> set ys) xs)"

text \<open>Lines 55 to 68.\<close>

definition pathDiagnostics :: "string \<Rightarrow> Flattened \<Rightarrow> string list \<Rightarrow> Diagnostic list" where
  "pathDiagnostics rn requestDefinition urlParts =
     (let pathProperties = map prop_name (fl_path requestDefinition)
      in warnAbsent (PathNotInSpec rn) pathProperties urlParts
         @ warnAbsent (PathNotInModel rn) urlParts pathProperties)"

text \<open>Lines 70 to 86.\<close>

definition queryDiagnostics :: "string \<Rightarrow> Flattened \<Rightarrow> JsonSpec \<Rightarrow> Diagnostic list" where
  "queryDiagnostics rn requestDefinition spec =
     (case js_params spec of
        None \<Rightarrow> []
      | Some ps \<Rightarrow>
          (let params = Object_keys ps;
               queryProperties = map prop_name (fl_query requestDefinition)
           in warnAbsent (QueryNotInSpec rn) queryProperties params
              @ warnAbsent (QueryNotInModel rn) params queryProperties))"

text \<open>Lines 88 to 94.\<close>

definition bodyDiagnostics :: "string \<Rightarrow> Flattened \<Rightarrow> JsonSpec \<Rightarrow> Diagnostic list" where
  "bodyDiagnostics rn requestDefinition spec =
     (if fl_body requestDefinition = yesBody \<and> js_body spec = None
      then [ShouldNotIncludeBody rn] else [])
     @ (if fl_body requestDefinition = noBody \<and> js_body spec \<noteq> None
           \<and> jb_required (the (js_body spec)) = True
        then [ShouldIncludeBody rn] else [])"

text \<open>Lines 48 to 94: what one endpoint prints, once its request is flattened and its
  JSON spec found.\<close>

definition reconcile :: "string \<Rightarrow> Flattened \<Rightarrow> JsonSpec \<Rightarrow> error + Diagnostic list" where
  "reconcile rn requestDefinition spec =
     (case urlPartsOf spec of
        Inl e \<Rightarrow> Inl e
      | Inr urlParts \<Rightarrow>
          Inr (pathDiagnostics rn requestDefinition urlParts
               @ queryDiagnostics rn requestDefinition spec
               @ bodyDiagnostics rn requestDefinition spec))"

text \<open>Lines 42 to 95: the body of the loop over the endpoints. Every throw of an
  endpoint comes before its first warning, so the result is an error or the warnings.\<close>

definition validateEndpoint :: "nat \<Rightarrow> TypeDefinition list \<Rightarrow> (string \<rightharpoonup> JsonSpec) \<Rightarrow> Endpoint
    \<Rightarrow> (error + Diagnostic list) option" where
  "validateEndpoint fuel tys jsonSpec endpoint =
     (case ep_request endpoint of
        None \<Rightarrow> Some (Inr [])
      | Some request \<Rightarrow>
          (case getDefinition tys (tn_name request) of
             Inl e \<Rightarrow> Some (Inl e)
           | Inr d \<Rightarrow>
               (case getProperties fuel tys d of
                  None \<Rightarrow> None
                | Some (Inl e) \<Rightarrow> Some (Inl e)
                | Some (Inr requestDefinition) \<Rightarrow>
                    (if tn_name request = LOG \<or> LOG = ''ALL'' then
                       (case jsonSpec (ep_name endpoint) of
                          None \<Rightarrow> Some (Inl (SpecNotFound (ep_name endpoint)))
                        | Some spec \<Rightarrow> Some (reconcile (tn_name request) requestDefinition spec))
                     else Some (Inr [])))))"

text \<open>The loop \<^verbatim>\<open>for (const endpoint of model.endpoints)\<close>, with the log so far.\<close>

fun validateEndpoints :: "nat \<Rightarrow> TypeDefinition list \<Rightarrow> (string \<rightharpoonup> JsonSpec) \<Rightarrow> Endpoint list
    \<Rightarrow> Diagnostic list \<Rightarrow> (Diagnostic list \<times> (error + unit)) option" where
  "validateEndpoints fuel tys jsonSpec [] log = Some (log, Inr ())"
| "validateEndpoints fuel tys jsonSpec (endpoint # rest) log =
     (case validateEndpoint fuel tys jsonSpec endpoint of
        None \<Rightarrow> None
      | Some (Inl e) \<Rightarrow> Some (log, Inl e)
      | Some (Inr ws) \<Rightarrow> validateEndpoints fuel tys jsonSpec rest (log @ ws))"

text \<open>The result is the log of warnings printed, with the error thrown or the model
  returned (\<^verbatim>\<open>return model\<close>).\<close>

definition validateRestSpec :: "nat \<Rightarrow> Model \<Rightarrow> (string \<rightharpoonup> JsonSpec)
    \<Rightarrow> (Diagnostic list \<times> (error + Model)) option" where
  "validateRestSpec fuel model jsonSpec =
     (case validateEndpoints fuel (types model) jsonSpec (endpoints model) [] of
        None \<Rightarrow> None
      | Some (log, Inl e) \<Rightarrow> Some (log, Inl e)
      | Some (log, Inr _) \<Rightarrow> Some (log, Inr model))"

subsection \<open>The inheritance graph\<close>

text \<open>\<open>inherits_from tys child parent\<close>: some entry of the child's \<^verbatim>\<open>inherits\<close> is resolved
  by \<^verbatim>\<open>getDefinition\<close> to the parent.\<close>

definition inherits_from :: "TypeDefinition list \<Rightarrow> Definition \<Rightarrow> Definition \<Rightarrow> bool" where
  "inherits_from tys child parent =
     (\<exists>inherit \<in> set (case def_inherits child of None \<Rightarrow> [] | Some inhs \<Rightarrow> inhs).
        getDefinition tys (tn_name (inh_type inherit)) = Inr parent)"

text \<open>The entity itself and its transitive ancestors.\<close>

inductive lineage :: "TypeDefinition list \<Rightarrow> Definition \<Rightarrow> Definition \<Rightarrow> bool"
  for tys :: "TypeDefinition list" where
  lineage_self: "lineage tys d d"
| lineage_step: "inherits_from tys d p \<Longrightarrow> lineage tys p a \<Longrightarrow> lineage tys d a"

text \<open>\<open>inherits_path tys d k\<close>: a chain of \<open>k\<close> inherits references starts at \<open>d\<close>.\<close>

inductive inherits_path :: "TypeDefinition list \<Rightarrow> Definition \<Rightarrow> nat \<Rightarrow> bool"
  for tys :: "TypeDefinition list" where
  path_nil: "inherits_path tys d 0"
| path_step: "inherits_from tys d p \<Longrightarrow> inherits_path tys p k \<Longrightarrow> inherits_path tys d (Suc k)"

text \<open>The inherits relation among the request and interface entities of the model.\<close>

definition inherits_rel :: "TypeDefinition list \<Rightarrow> (Definition \<times> Definition) set" where
  "inherits_rel tys =
     {(child, parent). RequestOrInterface child \<in> set tys \<and> inherits_from tys child parent}"

text \<open>Some inherits reference of the entity has no definition.\<close>

definition dangling :: "TypeDefinition list \<Rightarrow> Definition \<Rightarrow> bool" where
  "dangling tys d =
     (\<exists>inherit \<in> set (case def_inherits d of None \<Rightarrow> [] | Some inhs \<Rightarrow> inhs).
        getDefinition tys (tn_name (inh_type inherit))
          = Inl (DefinitionNotFound (tn_name (inh_type inherit))))"

text \<open>A request name has no definition, directly or through an inherits reference.\<close>

definition unresolved :: "TypeDefinition list \<Rightarrow> string \<Rightarrow> bool" where
  "unresolved tys name =
     (case getDefinition tys name of
        Inl e \<Rightarrow> True
      | Inr d \<Rightarrow> (\<exists>a. lineage tys d a \<and> dangling tys a))"

text \<open>An endpoint at which the pass throws: its request is non-null, and the request name
  has no definition or the endpoint has no entry in the JSON spec.\<close>

definition fatal :: "TypeDefinition list \<Rightarrow> (string \<rightharpoonup> JsonSpec) \<Rightarrow> Endpoint \<Rightarrow> bool" where
  "fatal tys jsonSpec endpoint =
     (\<exists>request. ep_request endpoint = Some request
        \<and> (unresolved tys (tn_name request) \<or> jsonSpec (ep_name endpoint) = None))"

subsection \<open>Reading the diagnostics\<close>

fun isPathDiagnostic :: "Diagnostic \<Rightarrow> bool" where
  "isPathDiagnostic (PathNotInSpec _ _) = True"
| "isPathDiagnostic (PathNotInModel _ _) = True"
| "isPathDiagnostic _ = False"

fun isBodyDiagnostic :: "Diagnostic \<Rightarrow> bool" where
  "isBodyDiagnostic (ShouldNotIncludeBody _) = True"
| "isBodyDiagnostic (ShouldIncludeBody _) = True"
| "isBodyDiagnostic _ = False"

text \<open>The names of all path parts of all path definitions of a JSON spec entry.\<close>

definition specPathParts :: "JsonSpec \<Rightarrow> string set" where
  "specPathParts spec =
     (\<Union>path \<in> set (js_url_paths spec).
        case up_parts path of None \<Rightarrow> {} | Some parts \<Rightarrow> set (Object_keys parts))"

text \<open>The flattened properties with every repeated property dropped.\<close>

definition once :: "Flattened \<Rightarrow> Flattened" where
  "once fp = fp \<lparr> fl_path := remdups (fl_path fp), fl_query := remdups (fl_query fp) \<rparr>"

subsection \<open>Example models\<close>

definition tn :: "string \<Rightarrow> TypeName" where
  "tn n = \<lparr> tn_name = n, tn_namespace = ''_types'' \<rparr>"

definition mkProp :: "string \<Rightarrow> Property" where
  "mkProp n = \<lparr> prop_name = n \<rparr>"

definition ext :: "string \<Rightarrow> Inherits" where
  "ext n = \<lparr> inh_type = tn n \<rparr>"

definition reqA :: Definition where
  "reqA = RequestDef \<lparr> req_name = tn ''A'', req_path = [mkProp ''id''], req_query = [],
     req_body = None, req_inherits = None \<rparr>"

definition reqB :: Definition where
  "reqB = RequestDef \<lparr> req_name = tn ''B'', req_path = [mkProp ''index''], req_query = [],
     req_body = Some (), req_inherits = None \<rparr>"

definition reqR :: Definition where
  "reqR = RequestDef \<lparr> req_name = tn ''R'', req_path = [], req_query = [],
     req_body = None, req_inherits = Some [ext ''A'', ext ''B''] \<rparr>"

text \<open>A request that declares a body and extends one that declares none.\<close>

definition reqS :: Definition where
  "reqS = RequestDef \<lparr> req_name = tn ''S'', req_path = [], req_query = [],
     req_body = Some (), req_inherits = Some [ext ''A''] \<rparr>"

text \<open>A second ancestor that declares the path property \<open>id\<close>, and a request that
  inherits \<open>id\<close> from both.\<close>

definition reqA2 :: Definition where
  "reqA2 = RequestDef \<lparr> req_name = tn ''A2'', req_path = [mkProp ''id''], req_query = [],
     req_body = None, req_inherits = None \<rparr>"

definition reqD :: Definition where
  "reqD = RequestDef \<lparr> req_name = tn ''D'', req_path = [], req_query = [],
     req_body = None, req_inherits = Some [ext ''A'', ext ''A2''] \<rparr>"

text \<open>A request that inherits from itself.\<close>

definition reqLoop :: Definition where
  "reqLoop = RequestDef \<lparr> req_name = tn ''Loop'', req_path = [], req_query = [],
     req_body = None, req_inherits = Some [ext ''Loop''] \<rparr>"

definition exTypes :: "TypeDefinition list" where
  "exTypes = [OtherKind (tn ''A''), RequestOrInterface reqA, RequestOrInterface reqB,
     RequestOrInterface reqR, RequestOrInterface reqS, RequestOrInterface reqA2,
     RequestOrInterface reqD]"

definition mkSpec :: "JsObject option list \<Rightarrow> JsonBody option \<Rightarrow> JsonSpec" where
  "mkSpec parts b = \<lparr> js_url_paths = map (\<lambda>p. \<lparr> up_parts = p \<rparr>) parts, js_params = None,
     js_body = b \<rparr>"

definition exJson :: "string \<rightharpoonup> JsonSpec" where
  "exJson = map_of
     [(''a'', mkSpec [Some [''id''], None, Some [''id'', ''version'']] None),
      (''a_optional'', mkSpec [Some [''id'']] (Some \<lparr> jb_required = False \<rparr>)),
      (''a_required'', mkSpec [Some [''id'']] (Some \<lparr> jb_required = True \<rparr>)),
      (''b_nobody'', mkSpec [Some [''index'']] None),
      (''b_body'', mkSpec [Some [''index'']] (Some \<lparr> jb_required = False \<rparr>)),
      (''d'', mkSpec [] None)]"

definition mkEndpoint :: "string \<Rightarrow> string \<Rightarrow> Endpoint" where
  "mkEndpoint n rq = \<lparr> ep_name = n, ep_request = Some (tn rq) \<rparr>"

text \<open>The second endpoint names a request that is not declared; the first one has a
  path parameter less than its JSON spec.\<close>

definition exModel :: Model where
  "exModel = \<lparr> endpoints = [mkEndpoint ''a'' ''A'', mkEndpoint ''m'' ''Missing''],
     types = exTypes \<rparr>"

definition okModel :: Model where
  "okModel = \<lparr> endpoints = [\<lparr> ep_name = ''n'', ep_request = None \<rparr>, mkEndpoint ''a'' ''A''],
     types = exTypes \<rparr>"

subsection \<open>The data model in the words of the specification\<close>

text \<open>
  The definitions of this subsection follow section 3 and section 4.1 of the
  specification and use none of the functions above: they are what the statements
  about declared entities, declared properties and inheritance are measured against.
\<close>

text \<open>The entities of kind request or interface among \<^verbatim>\<open>model.types\<close>, in declaration
  order.\<close>

definition entities :: "TypeDefinition list \<Rightarrow> Definition list" where
  "entities tys =
     concat (map (\<lambda>t. case t of RequestOrInterface d \<Rightarrow> [d] | OtherKind _ \<Rightarrow> []) tys)"

text \<open>The name an entity is identified by.\<close>

definition entity_name :: "Definition \<Rightarrow> string" where
  "entity_name d =
     (case d of RequestDef r \<Rightarrow> tn_name (req_name r) | InterfaceDef i \<Rightarrow> tn_name (if_name i))"

text \<open>The entity a name denotes: "lookup is by exact string equality against all
  declared type entities, filtered to kinds request and interface". Names are unique in
  a well-formed model; should one be declared twice, the first declaration is meant.\<close>

definition entity_named :: "TypeDefinition list \<Rightarrow> string \<Rightarrow> Definition option" where
  "entity_named tys name = find (\<lambda>d. entity_name d = name) (entities tys)"

text \<open>The properties an entity declares itself: a Request has the groups path and query,
  an Interface has "a single undifferentiated properties sequence (treated as
  query-equivalent)" and no path.\<close>

definition declared_path :: "Definition \<Rightarrow> Property list" where
  "declared_path d = (case d of RequestDef r \<Rightarrow> req_path r | InterfaceDef i \<Rightarrow> [])"

definition declared_query :: "Definition \<Rightarrow> Property list" where
  "declared_query d = (case d of RequestDef r \<Rightarrow> req_query r | InterfaceDef i \<Rightarrow> if_properties i)"

text \<open>The inherits references an entity declares ("zero or more").\<close>

definition declared_inherits :: "Definition \<Rightarrow> Inherits list" where
  "declared_inherits d =
     (case (case d of RequestDef r \<Rightarrow> req_inherits r | InterfaceDef i \<Rightarrow> if_inherits i) of
        None \<Rightarrow> [] | Some inhs \<Rightarrow> inhs)"

text \<open>\<open>parent_entity tys child parent\<close>: an inherits reference of the child names the
  parent. \<open>ancestor_or_self\<close>: the entity itself and its transitive ancestors.\<close>

definition parent_entity :: "TypeDefinition list \<Rightarrow> Definition \<Rightarrow> Definition \<Rightarrow> bool" where
  "parent_entity tys child parent =
     (\<exists>inherit \<in> set (declared_inherits child).
        entity_named tys (tn_name (inh_type inherit)) = Some parent)"

definition ancestor_or_self :: "TypeDefinition list \<Rightarrow> Definition \<Rightarrow> Definition \<Rightarrow> bool" where
  "ancestor_or_self tys d a = (parent_entity tys)\<^sup>*\<^sup>* d a"

text \<open>An inherits reference of the entity names no declared entity.\<close>

definition missing_parent :: "TypeDefinition list \<Rightarrow> Definition \<Rightarrow> bool" where
  "missing_parent tys d =
     (\<exists>inherit \<in> set (declared_inherits d).
        entity_named tys (tn_name (inh_type inherit)) = None)"

text \<open>A request name for which no entity of kind request or interface exists, directly
  (the name itself) or through an inherits reference reached from it.\<close>

definition undefined_request :: "TypeDefinition list \<Rightarrow> string \<Rightarrow> bool" where
  "undefined_request tys name =
     (case entity_named tys name of
        None \<Rightarrow> True
      | Some d \<Rightarrow> (\<exists>a. ancestor_or_self tys d a \<and> missing_parent tys a))"

text \<open>The input contract of section 3: the inherits references among the entities of the
  model form an acyclic graph.\<close>

definition acyclic_inheritance :: "TypeDefinition list \<Rightarrow> bool" where
  "acyclic_inheritance tys =
     acyclic {(child, parent). child \<in> set (entities tys) \<and> parent_entity tys child parent}"

text \<open>\<open>thrown_at tys jsonSpec e endpoint\<close>: the error \<open>e\<close> is the one the endpoint calls
  for. The request is resolved before the JSON spec is looked up: \<open>DefinitionNotFound\<close>
  of an undeclared name when the request name is undefined, \<open>SpecNotFound\<close> of the
  endpoint's name when the request is defined and the endpoint has no entry.\<close>

definition thrown_at :: "TypeDefinition list \<Rightarrow> (string \<rightharpoonup> JsonSpec) \<Rightarrow> error \<Rightarrow> Endpoint \<Rightarrow> bool" where
  "thrown_at tys jsonSpec e endpoint =
     (\<exists>request. ep_request endpoint = Some request
        \<and> ((undefined_request tys (tn_name request)
              \<and> (\<exists>name. e = DefinitionNotFound name \<and> entity_named tys name = None))
           \<or> (\<not> undefined_request tys (tn_name request)
              \<and> jsonSpec (ep_name endpoint) = None \<and> e = SpecNotFound (ep_name endpoint))))"

subsection \<open>The arrays of the model in a store\<close>

text \<open>
  In the embedding above an array is a list, a value: nothing in it could show that an
  array of the model is written to. For the statement that the pass leaves the model as
  it was, the same code is embedded once more over a store of arrays.

  The writes of validate-rest-spec.ts are the calls \<^verbatim>\<open>path.push(...)\<close> and
  \<^verbatim>\<open>query.push(...)\<close> of lines 119, 123, 131, 140 and 144 and the assignments to the local
  variable \<^verbatim>\<open>body\<close>; everything else reads (\<^verbatim>\<open>map\<close>, \<^verbatim>\<open>filter\<close>, \<^verbatim>\<open>flatMap\<close>,
  \<^verbatim>\<open>Object.keys\<close>, \<^verbatim>\<open>includes\<close>, \<^verbatim>\<open>jsonSpec.get\<close>) or builds a new array. \<^verbatim>\<open>push\<close> is
  applied to arrays of \<^verbatim>\<open>Property\<close>, so the store holds the arrays of \<^verbatim>\<open>Property\<close>:
  \<^verbatim>\<open>path\<close>, \<^verbatim>\<open>query\<close> and \<^verbatim>\<open>properties\<close> of every entity of the model, and the arrays
  that \<^verbatim>\<open>getProperties\<close> allocates. The JSON spec holds no array of \<^verbatim>\<open>Property\<close>.

  An array is referred to by its address. The store is the list of the arrays, an
  address is an index into it, and \<^verbatim>\<open>[]\<close> allocates a new array at the end. A reference
  of the program always points to an array; an address beyond the store has no
  contents and pushing to it does nothing.
\<close>

type_synonym addr = nat

type_synonym store = "Property list list"

text \<open>\<^verbatim>\<open>[]\<close>: a new, empty array.\<close>

definition new_array :: "store \<Rightarrow> addr \<times> store" where
  "new_array h = (length h, h @ [[]])"

text \<open>The elements of an array.\<close>

definition contents :: "store \<Rightarrow> addr \<Rightarrow> Property list" where
  "contents h a = (if a < length h then h ! a else [])"

text \<open>\<^verbatim>\<open>a.push(...xs)\<close>: the array at \<open>a\<close> is extended in place.\<close>

definition push :: "store \<Rightarrow> addr \<Rightarrow> Property list \<Rightarrow> store" where
  "push h a xs = (if a < length h then h[a := h ! a @ xs] else h)"

text \<open>Modelled from the spec: \<^verbatim>\<open>Request\<close>, \<^verbatim>\<open>Interface\<close> and \<^verbatim>\<open>Model\<close> of metamodel.ts as
  above, with the arrays \<^verbatim>\<open>path\<close>, \<^verbatim>\<open>query\<close> and \<^verbatim>\<open>properties\<close> as references into the
  store.\<close>

record RequestObj =
  ro_name :: TypeName
  ro_path :: addr
  ro_query :: addr
  ro_body :: "unit option"
  ro_inherits :: "Inherits list option"

record InterfaceObj =
  io_name :: TypeName
  io_properties :: addr
  io_inherits :: "Inherits list option"

datatype DefinitionObj = RequestRef RequestObj | InterfaceRef InterfaceObj

datatype TypeDefinitionObj = RequestOrInterfaceRef DefinitionObj | OtherKindRef TypeName

record ModelObj =
  mo_endpoints :: "Endpoint list"
  mo_types :: "TypeDefinitionObj list"

text \<open>The object \<^verbatim>\<open>{ path, query, body }\<close> that \<^verbatim>\<open>getProperties\<close> returns: two references
  and the body state.\<close>

record FlattenedRef =
  fr_path :: addr
  fr_query :: addr
  fr_body :: Body

fun obj_name :: "DefinitionObj \<Rightarrow> TypeName" where
  "obj_name (RequestRef r) = ro_name r"
| "obj_name (InterfaceRef i) = io_name i"

fun obj_inherits :: "DefinitionObj \<Rightarrow> Inherits list option" where
  "obj_inherits (RequestRef r) = ro_inherits r"
| "obj_inherits (InterfaceRef i) = io_inherits i"

text \<open>\<^verbatim>\<open>getDefinition\<close> and the \<^verbatim>\<open>map\<close> of line 136, as above.\<close>

fun getDefinitionS :: "TypeDefinitionObj list \<Rightarrow> string \<Rightarrow> error + DefinitionObj" where
  "getDefinitionS [] name = Inl (DefinitionNotFound name)"
| "getDefinitionS (RequestOrInterfaceRef d # rest) name =
     (if tn_name (obj_name d) = name then Inr d else getDefinitionS rest name)"
| "getDefinitionS (OtherKindRef _ # rest) name = getDefinitionS rest name"

fun getDefinitionsS :: "TypeDefinitionObj list \<Rightarrow> Inherits list \<Rightarrow> error + DefinitionObj list" where
  "getDefinitionsS tys [] = Inr []"
| "getDefinitionsS tys (inherit # rest) =
     (case getDefinitionS tys (tn_name (inh_type inherit)) of
        Inl e \<Rightarrow> Inl e
      | Inr d \<Rightarrow> (case getDefinitionsS tys rest of
                   Inl e \<Rightarrow> Inl e
                 | Inr ds \<Rightarrow> Inr (d # ds)))"

text \<open>\<^verbatim>\<open>if (source.length > 0) { target.push(...source) }\<close>, the form of all five pushes.\<close>

definition pushAll :: "store \<Rightarrow> addr \<Rightarrow> addr \<Rightarrow> store" where
  "pushAll h target source =
     (if length (contents h source) > 0 then push h target (contents h source) else h)"

text \<open>Lines 113 to 133: \<^verbatim>\<open>path\<close> and \<^verbatim>\<open>query\<close> are allocated, then filled from the arrays of
  the definition.\<close>

fun ownPropertiesS :: "DefinitionObj \<Rightarrow> store \<Rightarrow> FlattenedRef \<times> store" where
  "ownPropertiesS (RequestRef definition) h =
     (let (path, h1) = new_array h;
          (query, h2) = new_array h1;
          h3 = pushAll h2 path (ro_path definition);
          h4 = pushAll h3 query (ro_query definition)
      in (\<lparr> fr_path = path, fr_query = query,
            fr_body = (if ro_body definition \<noteq> None then yesBody else noBody) \<rparr>, h4))"
| "ownPropertiesS (InterfaceRef definition) h =
     (let (path, h1) = new_array h;
          (query, h2) = new_array h1;
          h3 = pushAll h2 query (io_properties definition)
      in (\<lparr> fr_path = path, fr_query = query, fr_body = noBody \<rparr>, h3))"

text \<open>Lines 139 to 149: the arrays of the ancestor are pushed onto \<^verbatim>\<open>path\<close> and
  \<^verbatim>\<open>query\<close>.\<close>

definition absorbS :: "FlattenedRef \<Rightarrow> FlattenedRef \<Rightarrow> store \<Rightarrow> FlattenedRef \<times> store" where
  "absorbS acc properties h =
     (let h1 = pushAll h (fr_path acc) (fr_path properties);
          h2 = pushAll h1 (fr_query acc) (fr_query properties)
      in (acc \<lparr> fr_body := (if fr_body acc \<noteq> fr_body properties then fr_body properties
                              else fr_body acc) \<rparr>, h2))"

fun inheritLoopS :: "(DefinitionObj \<Rightarrow> store \<Rightarrow> (store \<times> (error + FlattenedRef)) option)
    \<Rightarrow> DefinitionObj list \<Rightarrow> FlattenedRef \<Rightarrow> store
    \<Rightarrow> (store \<times> (error + FlattenedRef)) option" where
  "inheritLoopS rec [] acc h = Some (h, Inr acc)"
| "inheritLoopS rec (inherit # rest) acc h =
     (case rec inherit h of
        None \<Rightarrow> None
      | Some (h', Inl e) \<Rightarrow> Some (h', Inl e)
      | Some (h', Inr properties) \<Rightarrow>
          (let (acc', h'') = absorbS acc properties h' in inheritLoopS rec rest acc' h''))"

primrec getPropertiesS :: "nat \<Rightarrow> TypeDefinitionObj list \<Rightarrow> DefinitionObj \<Rightarrow> store
    \<Rightarrow> (store \<times> (error + FlattenedRef)) option" where
  "getPropertiesS 0 tys definition h = None"
| "getPropertiesS (Suc fuel) tys definition h =
     (let (own, h1) = ownPropertiesS definition h
      in case obj_inherits definition of
           None \<Rightarrow> Some (h1, Inr own)
         | Some inhs \<Rightarrow>
             (case getDefinitionsS tys inhs of
                Inl e \<Rightarrow> Some (h1, Inl e)
              | Inr inherits \<Rightarrow> inheritLoopS (getPropertiesS fuel tys) inherits own h1))"

text \<open>What lines 55 and 72 read from the object returned by \<^verbatim>\<open>getProperties\<close>.\<close>

definition flattened :: "store \<Rightarrow> FlattenedRef \<Rightarrow> Flattened" where
  "flattened h r = \<lparr> fl_path = contents h (fr_path r), fl_query = contents h (fr_query r),
     fl_body = fr_body r \<rparr>"

text \<open>Lines 42 to 95. The arrays \<^verbatim>\<open>urlParts\<close>, \<^verbatim>\<open>pathProperties\<close>, \<^verbatim>\<open>params\<close> and
  \<^verbatim>\<open>queryProperties\<close> are built by \<^verbatim>\<open>Array.from\<close>, \<^verbatim>\<open>map\<close> and \<^verbatim>\<open>Object.keys\<close> and only
  read afterwards: \<open>reconcile\<close> is the part of the loop body that writes nothing.\<close>

definition validateEndpointS :: "nat \<Rightarrow> TypeDefinitionObj list \<Rightarrow> (string \<rightharpoonup> JsonSpec) \<Rightarrow> Endpoint
    \<Rightarrow> store \<Rightarrow> (store \<times> (error + Diagnostic list)) option" where
  "validateEndpointS fuel tys jsonSpec endpoint h =
     (case ep_request endpoint of
        None \<Rightarrow> Some (h, Inr [])
      | Some request \<Rightarrow>
          (case getDefinitionS tys (tn_name request) of
             Inl e \<Rightarrow> Some (h, Inl e)
           | Inr d \<Rightarrow>
               (case getPropertiesS fuel tys d h of
                  None \<Rightarrow> None
                | Some (h', Inl e) \<Rightarrow> Some (h', Inl e)
                | Some (h', Inr requestDefinition) \<Rightarrow>
                    (if tn_name request = LOG \<or> LOG = ''ALL'' then
                       (case jsonSpec (ep_name endpoint) of
                          None \<Rightarrow> Some (h', Inl (SpecNotFound (ep_name endpoint)))
                        | Some spec \<Rightarrow>
                            Some (h', reconcile (tn_name request)
                                        (flattened h' requestDefinition) spec))
                     else Some (h', Inr [])))))"

fun validateEndpointsS :: "nat \<Rightarrow> TypeDefinitionObj list \<Rightarrow> (string \<rightharpoonup> JsonSpec)
    \<Rightarrow> Endpoint list \<Rightarrow> Diagnostic list \<Rightarrow> store
    \<Rightarrow> (store \<times> Diagnostic list \<times> (error + unit)) option" where
  "validateEndpointsS fuel tys jsonSpec [] log h = Some (h, log, Inr ())"
| "validateEndpointsS fuel tys jsonSpec (endpoint # rest) log h =
     (case validateEndpointS fuel tys jsonSpec endpoint h of
        None \<Rightarrow> None
      | Some (h', Inl e) \<Rightarrow> Some (h', log, Inl e)
      | Some (h', Inr ws) \<Rightarrow> validateEndpointsS fuel tys jsonSpec rest (log @ ws) h')"

text \<open>The result: the store after the pass, the log, and the error thrown or the
  reference to the model returned.\<close>

definition validateRestSpecS :: "nat \<Rightarrow> ModelObj \<Rightarrow> (string \<rightharpoonup> JsonSpec) \<Rightarrow> store
    \<Rightarrow> (store \<times> Diagnostic list \<times> (error + ModelObj)) option" where
  "validateRestSpecS fuel model jsonSpec h =
     (case validateEndpointsS fuel (mo_types model) jsonSpec (mo_endpoints model) [] h of
        None \<Rightarrow> None
      | Some (h', log, Inl e) \<Rightarrow> Some (h', log, Inl e)
      | Some (h', log, Inr _) \<Rightarrow> Some (h', log, Inr model))"

text \<open>The value model that a store model stands for: every reference is replaced by the
  contents of its array. \<open>allocated\<close>: the references of the model point into the store.\<close>

fun absDefinition :: "store \<Rightarrow> DefinitionObj \<Rightarrow> Definition" where
  "absDefinition h (RequestRef r) =
     RequestDef \<lparr> req_name = ro_name r, req_path = contents h (ro_path r),
       req_query = contents h (ro_query r), req_body = ro_body r,
       req_inherits = ro_inherits r \<rparr>"
| "absDefinition h (InterfaceRef i) =
     InterfaceDef \<lparr> if_name = io_name i, if_properties = contents h (io_properties i),
       if_inherits = io_inherits i \<rparr>"

fun absType :: "store \<Rightarrow> TypeDefinitionObj \<Rightarrow> TypeDefinition" where
  "absType h (RequestOrInterfaceRef d) = RequestOrInterface (absDefinition h d)"
| "absType h (OtherKindRef n) = OtherKind n"

definition absModel :: "store \<Rightarrow> ModelObj \<Rightarrow> Model" where
  "absModel h m = \<lparr> endpoints = mo_endpoints m, types = map (absType h) (mo_types m) \<rparr>"

fun addresses :: "DefinitionObj \<Rightarrow> addr list" where
  "addresses (RequestRef r) = [ro_path r, ro_query r]"
| "addresses (InterfaceRef i) = [io_properties i]"

definition allocated :: "store \<Rightarrow> TypeDefinitionObj list \<Rightarrow> bool" where
  "allocated h tys =
     (\<forall>d. RequestOrInterfaceRef d \<in> set tys \<longrightarrow> (\<forall>a \<in> set (addresses d). a < length h))"

definition absResult :: "(store \<times> (error + FlattenedRef)) option \<Rightarrow> (error + Flattened) option" where
  "absResult x = map_option (\<lambda>(h', res). map_sum id (flattened h') res) x"

subsection \<open>Further example models\<close>

text \<open>A request with two parents, one of which extends an interface, and a request
  whose only inherits reference names nothing.\<close>

definition ifCommon :: Definition where
  "ifCommon = InterfaceDef \<lparr> if_name = tn ''CommonQuery'', if_properties = [mkProp ''pretty''],
     if_inherits = None \<rparr>"

definition reqBase :: Definition where
  "reqBase = RequestDef \<lparr> req_name = tn ''Base'', req_path = [mkProp ''id''],
     req_query = [mkProp ''refresh''], req_body = None,
     req_inherits = Some [ext ''CommonQuery''] \<rparr>"

definition reqIdx :: Definition where
  "reqIdx = RequestDef \<lparr> req_name = tn ''Idx'', req_path = [mkProp ''index''],
     req_query = [mkProp ''routing''], req_body = None, req_inherits = None \<rparr>"

definition reqTop :: Definition where
  "reqTop = RequestDef \<lparr> req_name = tn ''Top'', req_path = [], req_query = [],
     req_body = None, req_inherits = Some [ext ''Base'', ext ''Idx''] \<rparr>"

definition reqOrphan :: Definition where
  "reqOrphan = RequestDef \<lparr> req_name = tn ''Orphan'', req_path = [], req_query = [],
     req_body = None, req_inherits = Some [ext ''Nowhere''] \<rparr>"

definition treeTypes :: "TypeDefinition list" where
  "treeTypes = [OtherKind (tn ''Base''), RequestOrInterface ifCommon, RequestOrInterface reqBase,
     RequestOrInterface reqIdx, RequestOrInterface reqTop, RequestOrInterface reqOrphan]"

definition treeJson :: "string \<rightharpoonup> JsonSpec" where
  "treeJson = map_of
     [(''top'', \<lparr> js_url_paths = [\<lparr> up_parts = Some [''index'', ''id''] \<rparr>],
                 js_params = Some [''refresh'', ''timeout''], js_body = None \<rparr>),
      (''iface'', \<lparr> js_url_paths = [], js_params = Some [''human''], js_body = None \<rparr>),
      (''orphan'', mkSpec [] None)]"

text \<open>The second endpoint has no entry in the JSON spec.\<close>

definition specModel :: Model where
  "specModel = \<lparr> endpoints = [mkEndpoint ''top'' ''Top'', mkEndpoint ''nospec'' ''Idx''],
     types = treeTypes \<rparr>"

text \<open>The request of the endpoint is declared, its inherits reference is not.\<close>

definition orphanModel :: Model where
  "orphanModel = \<lparr> endpoints = [mkEndpoint ''orphan'' ''Orphan''], types = treeTypes \<rparr>"

text \<open>An endpoint without request and without JSON spec, and one whose request is an
  interface.\<close>

definition ifaceModel :: Model where
  "ifaceModel = \<lparr> endpoints = [\<lparr> ep_name = ''skipped'', ep_request = None \<rparr>,
       mkEndpoint ''iface'' ''CommonQuery''],
     types = treeTypes \<rparr>"

text \<open>A model whose only request inherits from itself: every name is declared and the
  endpoint has its JSON spec.\<close>

definition loopModel :: Model where
  "loopModel = \<lparr> endpoints = [mkEndpoint ''loop'' ''Loop''],
     types = [RequestOrInterface reqLoop] \<rparr>"

definition loopJson :: "string \<rightharpoonup> JsonSpec" where
  "loopJson = map_of [(''loop'', mkSpec [] None)]"

text \<open>A store with the arrays of two requests, the second of which extends the first.\<close>

definition smallStore :: store where
  "smallStore = [[mkProp ''id''], [], [], [mkProp ''refresh'']]"

definition objBase :: DefinitionObj where
  "objBase = RequestRef \<lparr> ro_name = tn ''A'', ro_path = 0, ro_query = 1, ro_body = None,
     ro_inherits = None \<rparr>"

definition objSub :: DefinitionObj where
  "objSub = RequestRef \<lparr> ro_name = tn ''S'', ro_path = 2, ro_query = 3, ro_body = Some (),
     ro_inherits = Some [ext ''A''] \<rparr>"

definition smallModel :: ModelObj where
  "smallModel = \<lparr> mo_endpoints = [mkEndpoint ''b_nobody'' ''S''],
     mo_types = [RequestOrInterfaceRef objBase, RequestOrInterfaceRef objSub] \<rparr>"

section \<open>Properties of the flattening\<close>

subsection \<open>Basic facts\<close>

lemma own_path_simps:
  "fl_path (ownProperties (RequestDef r)) = req_path r"
  "fl_query (ownProperties (RequestDef r)) = req_query r"
  "fl_path (ownProperties (InterfaceDef i)) = []"
  "fl_query (ownProperties (InterfaceDef i)) = if_properties i"
  by simp_all

lemma absorb_simps:
  "fl_path (absorb acc p) = fl_path acc @ fl_path p"
  "fl_query (absorb acc p) = fl_query acc @ fl_query p"
  "fl_body (absorb acc p) = fl_body p"
  by (simp_all add: absorb_def)

lemma inheritLoop_mono:
  assumes "\<And>d r. d \<in> set ds \<Longrightarrow> f d = Some r \<Longrightarrow> g d = Some r"
    and "inheritLoop f ds acc = Some r"
  shows "inheritLoop g ds acc = Some r"
  using assms
proof (induction ds arbitrary: acc)
  case Nil
  then show ?case by simp
next
  case (Cons d ds)
  show ?case
  proof (cases "f d")
    case None
    with Cons.prems(2) show ?thesis by simp
  next
    case (Some x)
    then have g: "g d = Some x" using Cons.prems(1) by simp
    show ?thesis
    proof (cases x)
      case (Inl e)
      with Some g Cons.prems(2) show ?thesis by auto
    next
      case (Inr p)
      with Some Cons.prems(2) have "inheritLoop f ds (absorb acc p) = Some r" by simp
      then have "inheritLoop g ds (absorb acc p) = Some r"
        using Cons.IH Cons.prems(1) by simp
      with g Inr show ?thesis by simp
    qed
  qed
qed

lemma getProperties_Suc_mono:
  "getProperties fuel tys d = Some r \<Longrightarrow> getProperties (Suc fuel) tys d = Some r"
proof (induction fuel arbitrary: d r)
  case 0
  then show ?case by simp
next
  case (Suc n)
  show ?case
  proof (cases "def_inherits d")
    case None
    with Suc.prems show ?thesis by simp
  next
    case (Some inhs)
    show ?thesis
    proof (cases "getDefinitions tys inhs")
      case (Inl e)
      with Some Suc.prems show ?thesis by simp
    next
      case (Inr ds)
      with Some Suc.prems
      have "inheritLoop (getProperties n tys) ds (ownProperties d) = Some r" by simp
      then have "inheritLoop (getProperties (Suc n) tys) ds (ownProperties d) = Some r"
        by (rule inheritLoop_mono[rotated]) (rule Suc.IH)
      with Some Inr show ?thesis by simp
    qed
  qed
qed

lemma getProperties_mono:
  "getProperties fuel tys d = Some r \<Longrightarrow> fuel \<le> fuel' \<Longrightarrow> getProperties fuel' tys d = Some r"
proof (induction "fuel' - fuel" arbitrary: fuel')
  case 0
  then show ?case by simp
next
  case (Suc k)
  then obtain m where m: "fuel' = Suc m" and "k = m - fuel" and "fuel \<le> m"
    by (cases fuel') auto
  with Suc have "getProperties m tys d = Some r" by simp
  then show ?case unfolding m by (rule getProperties_Suc_mono)
qed

lemma inheritLoop_last_body:
  "inheritLoop f ds acc = Some (Inr fp) \<Longrightarrow> ds \<noteq> [] \<Longrightarrow>
     \<exists>fl. f (last ds) = Some (Inr fl) \<and> fl_body fp = fl_body fl"
proof (induction ds arbitrary: acc)
  case Nil
  then show ?case by simp
next
  case (Cons d ds)
  from Cons.prems(1) obtain p where p: "f d = Some (Inr p)"
    and rest: "inheritLoop f ds (absorb acc p) = Some (Inr fp)"
    by (auto split: option.splits sum.splits)
  show ?case
  proof (cases "ds = []")
    case True
    with p rest show ?thesis by (auto simp: absorb_simps)
  next
    case False
    with Cons.IH[OF rest] show ?thesis by simp
  qed
qed

lemma getDefinitions_last:
  "getDefinitions tys inhs = Inr ds \<Longrightarrow> inhs \<noteq> [] \<Longrightarrow>
     ds \<noteq> [] \<and> getDefinition tys (tn_name (inh_type (last inhs))) = Inr (last ds)"
proof (induction inhs arbitrary: ds)
  case Nil
  then show ?case by simp
next
  case (Cons i inhs)
  from Cons.prems(1) obtain d ds' where d: "getDefinition tys (tn_name (inh_type i)) = Inr d"
    and ds': "getDefinitions tys inhs = Inr ds'" and ds: "ds = d # ds'"
    by (auto split: sum.splits)
  show ?case
  proof (cases "inhs = []")
    case True
    with d ds' ds show ?thesis by simp
  next
    case False
    with Cons.IH[OF ds'] ds show ?thesis by simp
  qed
qed

subsection \<open>The body state\<close>

text \<open>
  Claim C1 (the code departs from it). If the entity itself or any transitive ancestor
  declares a body, the flattened body state should be \<open>yesBody\<close>. The request \<open>S\<close>
  declares a body and extends \<open>A\<close>, which declares none: its own state is
  \<open>yesBody\<close>, and the loop over the ancestors overwrites it with the \<open>noBody\<close> of \<open>A\<close>.
\<close>

theorem C1_body_lost:
  "def_inherits reqS = Some [ext ''A'']
   \<and> fl_body (ownProperties reqS) = yesBody
   \<and> getProperties 2 exTypes reqS
     = Some (Inr \<lparr> fl_path = [mkProp ''id''], fl_query = [], fl_body = noBody \<rparr>)"
  by code_simp

text \<open>
  Claim C2. For an entity with a non-empty inherits list, the ancestors are processed in
  declaration order and each one's flattened body state replaces the accumulated one:
  whenever the flattening of the entity returns, the last name of the inherits list is
  that of a declared ancestor, the flattening of this ancestor returns, and the two
  flattened body states are equal.
\<close>

theorem C2_last_ancestor_body:
  assumes "getProperties fuel tys d = Some (Inr fp)"
    and "def_inherits d = Some inhs" and "inhs \<noteq> []"
  shows "\<exists>ancestor fl.
           getDefinition tys (tn_name (inh_type (last inhs))) = Inr ancestor
         \<and> getProperties fuel tys ancestor = Some (Inr fl)
         \<and> fl_body fp = fl_body fl"
proof (cases fuel)
  case 0
  with assms(1) show ?thesis by simp
next
  case (Suc n)
  with assms(1,2) obtain ds where ds: "getDefinitions tys inhs = Inr ds"
    and loop: "inheritLoop (getProperties n tys) ds (ownProperties d) = Some (Inr fp)"
    by (auto split: sum.splits)
  from getDefinitions_last[OF ds assms(3)]
  have ne: "ds \<noteq> []" and l: "getDefinition tys (tn_name (inh_type (last inhs))) = Inr (last ds)"
    by simp_all
  from inheritLoop_last_body[OF loop ne] obtain fl
    where fl: "getProperties n tys (last ds) = Some (Inr fl)" and b: "fl_body fp = fl_body fl"
    by blast
  from fl have "getProperties fuel tys (last ds) = Some (Inr fl)"
    unfolding Suc by (rule getProperties_Suc_mono)
  with l b show ?thesis by blast
qed

theorem C2_witness:
  "getProperties 2 exTypes reqR
     = Some (Inr \<lparr> fl_path = [mkProp ''id'', mkProp ''index''], fl_query = [], fl_body = yesBody \<rparr>)
   \<and> getDefinition exTypes ''B'' = Inr reqB
   \<and> (\<exists>fl. getProperties 2 exTypes reqB = Some (Inr fl) \<and> fl_body fl = yesBody)"
proof -
  have r: "getProperties 2 exTypes reqR
     = Some (Inr \<lparr> fl_path = [mkProp ''id'', mkProp ''index''], fl_query = [], fl_body = yesBody \<rparr>)"
    by code_simp
  have i: "def_inherits reqR = Some [ext ''A'', ext ''B'']" by (simp add: reqR_def)
  have n: "[ext ''A'', ext ''B''] \<noteq> []" by simp
  have b: "getDefinition exTypes ''B'' = Inr reqB" by code_simp
  from C2_last_ancestor_body[OF r i n] r b show ?thesis
    by (auto simp: ext_def tn_def)
qed

section \<open>Properties of the reconciliation\<close>

subsection \<open>The path parts of the spec and the warnings of one endpoint\<close>

lemma flatMapParts_filtered:
  "flatMapParts (filter (\<lambda>path. up_parts path \<noteq> None) ps)
     = Inr (concat (map (\<lambda>path. case up_parts path of None \<Rightarrow> [] | Some parts \<Rightarrow> Object_keys parts) ps))"
  by (induction ps) auto

lemma Set_add_fold_set: "set (foldl Set_add acc xs) = set acc \<union> set xs"
  by (induction xs arbitrary: acc) (auto simp: Set_add_def)

lemma Set_add_fold_distinct: "distinct acc \<Longrightarrow> distinct (foldl Set_add acc xs)"
  by (induction xs arbitrary: acc) (auto simp: Set_add_def)

lemma set_Array_from_Set: "set (Array_from_Set xs) = set xs"
  by (simp add: Array_from_Set_def Set_add_fold_set)

lemma distinct_Array_from_Set: "distinct (Array_from_Set xs)"
  by (simp add: Array_from_Set_def Set_add_fold_distinct)

lemma set_concat_parts:
  "set (concat (map (\<lambda>path. case up_parts path of None \<Rightarrow> [] | Some parts \<Rightarrow> Object_keys parts) ps))
     = (\<Union>path \<in> set ps. case up_parts path of None \<Rightarrow> {} | Some parts \<Rightarrow> set (Object_keys parts))"
  by (induction ps) (simp_all split: option.splits)

lemma urlPartsOf_returns:
  "\<exists>urlParts. urlPartsOf spec = Inr urlParts \<and> distinct urlParts
      \<and> set urlParts = specPathParts spec"
  unfolding urlPartsOf_def flatMapParts_filtered specPathParts_def
  by (simp add: set_Array_from_Set distinct_Array_from_Set set_concat_parts del: set_concat)

lemma reconcile_returns:
  "\<exists>urlParts. distinct urlParts \<and> set urlParts = specPathParts spec
     \<and> reconcile rn fp spec = Inr (pathDiagnostics rn fp urlParts @ queryDiagnostics rn fp spec
                                  @ bodyDiagnostics rn fp spec)"
  using urlPartsOf_returns[of spec] by (auto simp: reconcile_def)

lemma validateEndpoint_reconcile:
  assumes "ep_request endpoint = Some request"
    and "getDefinition tys (tn_name request) = Inr d"
    and "getProperties fuel tys d = Some (Inr fp)"
    and "jsonSpec (ep_name endpoint) = Some spec"
  shows "validateEndpoint fuel tys jsonSpec endpoint = Some (reconcile (tn_name request) fp spec)"
  using assms by (simp add: validateEndpoint_def LOG_def)

lemma filter_body_warnAbsent [simp]:
  "filter isBodyDiagnostic (warnAbsent (PathNotInSpec rn) xs ys) = []"
  "filter isBodyDiagnostic (warnAbsent (PathNotInModel rn) xs ys) = []"
  "filter isBodyDiagnostic (warnAbsent (QueryNotInSpec rn) xs ys) = []"
  "filter isBodyDiagnostic (warnAbsent (QueryNotInModel rn) xs ys) = []"
  by (simp_all add: warnAbsent_def filter_map o_def)

lemma filter_path_warnAbsent [simp]:
  "filter isPathDiagnostic (warnAbsent (PathNotInSpec rn) xs ys) = warnAbsent (PathNotInSpec rn) xs ys"
  "filter isPathDiagnostic (warnAbsent (PathNotInModel rn) xs ys) = warnAbsent (PathNotInModel rn) xs ys"
  "filter isPathDiagnostic (warnAbsent (QueryNotInSpec rn) xs ys) = []"
  "filter isPathDiagnostic (warnAbsent (QueryNotInModel rn) xs ys) = []"
  by (simp_all add: warnAbsent_def filter_map o_def)

lemma filter_body_parts:
  "filter isBodyDiagnostic (pathDiagnostics rn fp urlParts) = []"
  "filter isBodyDiagnostic (queryDiagnostics rn fp spec) = []"
  "filter isBodyDiagnostic (bodyDiagnostics rn fp spec) = bodyDiagnostics rn fp spec"
  by (simp_all add: pathDiagnostics_def queryDiagnostics_def bodyDiagnostics_def Let_def
      split: option.splits)

lemma filter_path_parts:
  "filter isPathDiagnostic (pathDiagnostics rn fp urlParts) = pathDiagnostics rn fp urlParts"
  "filter isPathDiagnostic (queryDiagnostics rn fp spec) = []"
  "filter isPathDiagnostic (bodyDiagnostics rn fp spec) = []"
  by (simp_all add: pathDiagnostics_def queryDiagnostics_def bodyDiagnostics_def Let_def
      split: option.splits)

text \<open>
  Claim C4. For an endpoint with a request that is declared and flattened and with an
  entry in the JSON spec, the endpoint is reconciled without error and its body warnings
  are: none when the flattened model has no body and the spec body has
  \<open>required = false\<close>; exactly "should include a body" when the model has no body and
  the spec body has \<open>required = true\<close>; exactly "should not include a body" when the
  model has a body and the spec has no body; none when the model has a body and the
  spec has one, whatever its \<open>required\<close>.
\<close>

theorem C4_body_reconciliation:
  assumes "ep_request endpoint = Some request"
    and "getDefinition tys (tn_name request) = Inr d"
    and "getProperties fuel tys d = Some (Inr fp)"
    and "jsonSpec (ep_name endpoint) = Some spec"
  shows "\<exists>ws. validateEndpoint fuel tys jsonSpec endpoint = Some (Inr ws)
    \<and> (fl_body fp = noBody \<and> js_body spec = Some \<lparr> jb_required = False \<rparr>
         \<longrightarrow> filter isBodyDiagnostic ws = [])
    \<and> (fl_body fp = noBody \<and> js_body spec = Some \<lparr> jb_required = True \<rparr>
         \<longrightarrow> filter isBodyDiagnostic ws = [ShouldIncludeBody (tn_name request)])
    \<and> (fl_body fp = yesBody \<and> js_body spec = None
         \<longrightarrow> filter isBodyDiagnostic ws = [ShouldNotIncludeBody (tn_name request)])
    \<and> (fl_body fp = yesBody \<and> js_body spec \<noteq> None
         \<longrightarrow> filter isBodyDiagnostic ws = [])"
proof -
  obtain urlParts where
    r: "reconcile (tn_name request) fp spec
        = Inr (pathDiagnostics (tn_name request) fp urlParts
               @ queryDiagnostics (tn_name request) fp spec
               @ bodyDiagnostics (tn_name request) fp spec)"
    using reconcile_returns by blast
  have "validateEndpoint fuel tys jsonSpec endpoint = Some (reconcile (tn_name request) fp spec)"
    using assms by (rule validateEndpoint_reconcile[where jsonSpec=jsonSpec])
  then show ?thesis
    unfolding r by (auto simp: filter_body_parts bodyDiagnostics_def)
qed

theorem C4_witness:
  "(\<exists>ws. validateEndpoint 1 exTypes exJson (mkEndpoint ''a_optional'' ''A'') = Some (Inr ws)
       \<and> filter isBodyDiagnostic ws = [])
   \<and> (\<exists>ws. validateEndpoint 1 exTypes exJson (mkEndpoint ''a_required'' ''A'') = Some (Inr ws)
       \<and> filter isBodyDiagnostic ws = [ShouldIncludeBody ''A''])
   \<and> (\<exists>ws. validateEndpoint 1 exTypes exJson (mkEndpoint ''b_nobody'' ''B'') = Some (Inr ws)
       \<and> filter isBodyDiagnostic ws = [ShouldNotIncludeBody ''B''])
   \<and> (\<exists>ws. validateEndpoint 1 exTypes exJson (mkEndpoint ''b_body'' ''B'') = Some (Inr ws)
       \<and> filter isBodyDiagnostic ws = [])"
proof -
  have dA: "getDefinition exTypes (tn_name (tn ''A'')) = Inr reqA" by code_simp
  have dB: "getDefinition exTypes (tn_name (tn ''B'')) = Inr reqB" by code_simp
  have fA: "getProperties 1 exTypes reqA
      = Some (Inr \<lparr> fl_path = [mkProp ''id''], fl_query = [], fl_body = noBody \<rparr>)" by code_simp
  have fB: "getProperties 1 exTypes reqB
      = Some (Inr \<lparr> fl_path = [mkProp ''index''], fl_query = [], fl_body = yesBody \<rparr>)" by code_simp
  have s1: "exJson (ep_name (mkEndpoint ''a_optional'' ''A''))
      = Some (mkSpec [Some [''id'']] (Some \<lparr> jb_required = False \<rparr>))"
    by (simp add: exJson_def mkEndpoint_def)
  have s2: "exJson (ep_name (mkEndpoint ''a_required'' ''A''))
      = Some (mkSpec [Some [''id'']] (Some \<lparr> jb_required = True \<rparr>))"
    by (simp add: exJson_def mkEndpoint_def)
  have s3: "exJson (ep_name (mkEndpoint ''b_nobody'' ''B'')) = Some (mkSpec [Some [''index'']] None)"
    by (simp add: exJson_def mkEndpoint_def)
  have s4: "exJson (ep_name (mkEndpoint ''b_body'' ''B''))
      = Some (mkSpec [Some [''index'']] (Some \<lparr> jb_required = False \<rparr>))"
    by (simp add: exJson_def mkEndpoint_def)
  have rq: "\<And>n r. ep_request (mkEndpoint n r) = Some (tn r)" by (simp add: mkEndpoint_def)
  show ?thesis
    using C4_body_reconciliation[where jsonSpec=exJson, OF rq dA fA s1]
      C4_body_reconciliation[where jsonSpec=exJson, OF rq dA fA s2]
      C4_body_reconciliation[where jsonSpec=exJson, OF rq dB fB s3]
      C4_body_reconciliation[where jsonSpec=exJson, OF rq dB fB s4]
    by (simp add: mkSpec_def tn_def)
qed

lemma filter_absent_single:
  assumes "distinct xs" and "set xs = {a, b}" and "b \<noteq> a"
  shows "filter (\<lambda>n. n \<noteq> a) xs = [b]"
proof -
  have d: "distinct (filter (\<lambda>n. n \<noteq> a) xs)" using assms(1) by simp
  have s: "set (filter (\<lambda>n. n \<noteq> a) xs) = {b}" using assms(2,3) by auto
  from d s have "card {b} = length (filter (\<lambda>n. n \<noteq> a) xs)"
    by (metis distinct_card)
  then have "length (filter (\<lambda>n. n \<noteq> a) xs) = 1" by simp
  with s show ?thesis
    by (cases "filter (\<lambda>n. n \<noteq> a) xs") auto
qed

lemma set_warnAbsent: "set (warnAbsent mk xs ys) = mk ` (set xs - set ys)"
  by (auto simp: warnAbsent_def)

text \<open>
  Claim C5. For such an endpoint the path warnings are the symmetric difference of the
  flattened path names and the path parts of all path definitions of the spec: one
  warning "not present in the json spec" for each name of the model only, one
  "does not include" for each name of the spec only. When the model's names are
  \<open>{id}\<close> and the spec's are \<open>{id, version}\<close>, the path warnings are exactly the one for
  \<open>version\<close>.
\<close>

theorem C5_path_reconciliation:
  assumes "ep_request endpoint = Some request"
    and "getDefinition tys (tn_name request) = Inr d"
    and "getProperties fuel tys d = Some (Inr fp)"
    and "jsonSpec (ep_name endpoint) = Some spec"
  shows "\<exists>ws. validateEndpoint fuel tys jsonSpec endpoint = Some (Inr ws)
    \<and> set (filter isPathDiagnostic ws)
        = PathNotInSpec (tn_name request) ` (prop_name ` set (fl_path fp) - specPathParts spec)
        \<union> PathNotInModel (tn_name request) ` (specPathParts spec - prop_name ` set (fl_path fp))
    \<and> (\<forall>id version. prop_name ` set (fl_path fp) = {id} \<and> specPathParts spec = {id, version}
           \<and> version \<noteq> id
         \<longrightarrow> filter isPathDiagnostic ws = [PathNotInModel (tn_name request) version])"
proof -
  obtain urlParts where dist: "distinct urlParts" and U: "set urlParts = specPathParts spec"
    and r: "reconcile (tn_name request) fp spec
        = Inr (pathDiagnostics (tn_name request) fp urlParts
               @ queryDiagnostics (tn_name request) fp spec
               @ bodyDiagnostics (tn_name request) fp spec)"
    using reconcile_returns by blast
  let ?ws = "pathDiagnostics (tn_name request) fp urlParts
               @ queryDiagnostics (tn_name request) fp spec
               @ bodyDiagnostics (tn_name request) fp spec"
  have v: "validateEndpoint fuel tys jsonSpec endpoint = Some (Inr ?ws)"
    using validateEndpoint_reconcile[where jsonSpec=jsonSpec, OF assms] r by simp
  have f: "filter isPathDiagnostic ?ws = pathDiagnostics (tn_name request) fp urlParts"
    by (simp add: filter_path_parts)
  have symdiff: "set (pathDiagnostics (tn_name request) fp urlParts)
      = PathNotInSpec (tn_name request) ` (prop_name ` set (fl_path fp) - specPathParts spec)
        \<union> PathNotInModel (tn_name request) ` (specPathParts spec - prop_name ` set (fl_path fp))"
    by (simp add: pathDiagnostics_def Let_def set_warnAbsent U)
  have one: "pathDiagnostics (tn_name request) fp urlParts = [PathNotInModel (tn_name request) version]"
    if P: "prop_name ` set (fl_path fp) = {id}" and S: "specPathParts spec = {id, version}"
      and ne: "version \<noteq> id" for id version
  proof -
    have P': "set (map prop_name (fl_path fp)) = {id}" using P by simp
    have a: "filter (\<lambda>name. name \<notin> set urlParts) (map prop_name (fl_path fp)) = []"
      unfolding filter_empty_conv using P' U S by auto
    have b: "filter (\<lambda>name. name \<notin> set (map prop_name (fl_path fp))) urlParts = [version]"
      unfolding P' using dist U S ne by (simp add: filter_absent_single)
    show ?thesis
      unfolding pathDiagnostics_def Let_def warnAbsent_def a b by simp
  qed
  have all: "\<forall>id version. prop_name ` set (fl_path fp) = {id} \<and> specPathParts spec = {id, version}
           \<and> version \<noteq> id
         \<longrightarrow> filter isPathDiagnostic ?ws = [PathNotInModel (tn_name request) version]"
    unfolding f using one by blast
  have "set (filter isPathDiagnostic ?ws)
        = PathNotInSpec (tn_name request) ` (prop_name ` set (fl_path fp) - specPathParts spec)
        \<union> PathNotInModel (tn_name request) ` (specPathParts spec - prop_name ` set (fl_path fp))"
    unfolding f by (rule symdiff)
  with v all show ?thesis by blast
qed

theorem C5_witness:
  "\<exists>ws. validateEndpoint 1 exTypes exJson (mkEndpoint ''a'' ''A'') = Some (Inr ws)
     \<and> filter isPathDiagnostic ws = [PathNotInModel ''A'' ''version'']"
proof -
  have dA: "getDefinition exTypes (tn_name (tn ''A'')) = Inr reqA" by code_simp
  have fA: "getProperties 1 exTypes reqA
      = Some (Inr \<lparr> fl_path = [mkProp ''id''], fl_query = [], fl_body = noBody \<rparr>)" by code_simp
  have s: "exJson (ep_name (mkEndpoint ''a'' ''A''))
      = Some (mkSpec [Some [''id''], None, Some [''id'', ''version'']] None)"
    by (simp add: exJson_def mkEndpoint_def)
  have rq: "ep_request (mkEndpoint ''a'' ''A'') = Some (tn ''A'')" by (simp add: mkEndpoint_def)
  have U: "specPathParts (mkSpec [Some [''id''], None, Some [''id'', ''version'']] None)
      = {''id'', ''version''}"
    by (auto simp: specPathParts_def mkSpec_def Object_keys_def)
  have P: "prop_name ` set (fl_path \<lparr> fl_path = [mkProp ''id''], fl_query = [], fl_body = noBody \<rparr>)
      = {''id''}"
    by (simp add: mkProp_def)
  from C5_path_reconciliation[where jsonSpec=exJson, OF rq dA fA s] U P show ?thesis
    by (auto simp: tn_def)
qed

section \<open>The inheritance graph and the flattening\<close>

subsection \<open>Resolving the inherits references\<close>

lemma getDefinition_mem:
  "getDefinition tys name = Inr d \<Longrightarrow> RequestOrInterface d \<in> set tys"
  by (induction tys name rule: getDefinition.induct) (auto split: if_splits)

lemma getDefinition_Inl:
  "getDefinition tys name = Inl e \<Longrightarrow> e = DefinitionNotFound name"
  by (induction tys name rule: getDefinition.induct) (auto split: if_splits)

lemma getDefinitions_Inr:
  "getDefinitions tys inhs = Inr ds \<Longrightarrow>
     list_all2 (\<lambda>inherit d. getDefinition tys (tn_name (inh_type inherit)) = Inr d) inhs ds"
  by (induction inhs arbitrary: ds) (auto split: sum.splits)

lemma getDefinitions_Inl:
  "getDefinitions tys inhs = Inl e \<Longrightarrow>
     \<exists>inherit \<in> set inhs. getDefinition tys (tn_name (inh_type inherit)) = Inl e"
  by (induction inhs) (auto split: sum.splits)

lemma getDefinitions_parents:
  assumes "def_inherits d = Some inhs" and "getDefinitions tys inhs = Inr ds"
  shows "p \<in> set ds \<longleftrightarrow> inherits_from tys d p"
proof -
  have l: "list_all2 (\<lambda>inherit d. getDefinition tys (tn_name (inh_type inherit)) = Inr d) inhs ds"
    using assms(2) by (rule getDefinitions_Inr)
  have "p \<in> set ds \<longleftrightarrow> (\<exists>inherit \<in> set inhs. getDefinition tys (tn_name (inh_type inherit)) = Inr p)"
  proof
    assume "p \<in> set ds"
    then obtain i where "i < length ds" and "ds ! i = p" by (auto simp: in_set_conv_nth)
    with l show "\<exists>inherit \<in> set inhs. getDefinition tys (tn_name (inh_type inherit)) = Inr p"
      by (auto simp: list_all2_conv_all_nth intro!: bexI[of _ "inhs ! i"])
  next
    assume "\<exists>inherit \<in> set inhs. getDefinition tys (tn_name (inh_type inherit)) = Inr p"
    then obtain i where "i < length inhs" and "getDefinition tys (tn_name (inh_type (inhs ! i))) = Inr p"
      by (auto simp: in_set_conv_nth)
    with l show "p \<in> set ds"
      by (auto simp: list_all2_conv_all_nth in_set_conv_nth)
  qed
  with assms(1) show ?thesis by (simp add: inherits_from_def)
qed

lemma getDefinitions_dangling:
  assumes "def_inherits d = Some inhs"
  shows "dangling tys d \<longleftrightarrow> (\<exists>e. getDefinitions tys inhs = Inl e)"
proof
  assume "dangling tys d"
  with assms obtain inherit where i: "inherit \<in> set inhs"
    and m: "getDefinition tys (tn_name (inh_type inherit)) = Inl (DefinitionNotFound (tn_name (inh_type inherit)))"
    by (auto simp: dangling_def)
  show "\<exists>e. getDefinitions tys inhs = Inl e"
  proof (cases "getDefinitions tys inhs")
    case (Inl e)
    then show ?thesis by blast
  next
    case (Inr ds)
    from getDefinitions_Inr[OF this] i m show ?thesis
      by (auto simp: list_all2_conv_all_nth in_set_conv_nth)
  qed
next
  assume "\<exists>e. getDefinitions tys inhs = Inl e"
  then obtain e where "getDefinitions tys inhs = Inl e" by blast
  from getDefinitions_Inl[OF this] obtain inherit where "inherit \<in> set inhs"
    and "getDefinition tys (tn_name (inh_type inherit)) = Inl e" by blast
  with getDefinition_Inl[OF this(2)] assms show "dangling tys d"
    by (auto simp: dangling_def)
qed

lemma no_inherits_no_parent: "def_inherits d = None \<Longrightarrow> \<not> inherits_from tys d p"
  by (simp add: inherits_from_def)

lemma no_inherits_not_dangling: "def_inherits d = None \<Longrightarrow> \<not> dangling tys d"
  by (simp add: dangling_def)

lemma inherits_from_mem: "inherits_from tys d p \<Longrightarrow> RequestOrInterface p \<in> set tys"
  by (auto simp: inherits_from_def dest: getDefinition_mem)

subsection \<open>The loop over the ancestors\<close>

lemma inheritLoop_returns:
  "(\<And>d. d \<in> set ds \<Longrightarrow> \<exists>r. f d = Some r) \<Longrightarrow> \<exists>r. inheritLoop f ds acc = Some r"
proof (induction ds arbitrary: acc)
  case Nil
  then show ?case by simp
next
  case (Cons d ds)
  from Cons.prems obtain r where r: "f d = Some r" by auto
  show ?case
  proof (cases r)
    case (Inl e)
    with r show ?thesis by simp
  next
    case (Inr p)
    from Cons.IH[of "absorb acc p"] Cons.prems r Inr show ?thesis by simp
  qed
qed

lemma inheritLoop_Inr_all:
  "inheritLoop f ds acc = Some (Inr fp) \<Longrightarrow> d \<in> set ds \<Longrightarrow> \<exists>p. f d = Some (Inr p)"
  by (induction ds arbitrary: acc) (auto split: option.splits sum.splits)

lemma inheritLoop_Inl_some:
  "inheritLoop f ds acc = Some (Inl e) \<Longrightarrow> \<exists>d \<in> set ds. f d = Some (Inl e)"
  by (induction ds arbitrary: acc) (auto split: option.splits sum.splits)

subsection \<open>Termination\<close>

lemma getProperties_bounded_depth:
  "(\<And>k. inherits_path tys d k \<Longrightarrow> k \<le> h) \<Longrightarrow> \<exists>r. getProperties (Suc h) tys d = Some r"
proof (induction h arbitrary: d)
  case 0
  show ?case
  proof (cases "def_inherits d")
    case None
    then show ?thesis by simp
  next
    case (Some inhs)
    show ?thesis
    proof (cases "getDefinitions tys inhs")
      case (Inl e)
      with Some show ?thesis by simp
    next
      case (Inr ds)
      have "ds = []"
      proof (cases ds)
        case (Cons p ps)
        then have "inherits_from tys d p"
          using getDefinitions_parents[OF Some Inr, of p] by simp
        then have "inherits_path tys d (Suc 0)" by (rule path_step) (rule path_nil)
        from "0.prems"[OF this] show ?thesis by simp
      qed simp
      with Some Inr show ?thesis by simp
    qed
  qed
next
  case (Suc h)
  show ?case
  proof (cases "def_inherits d")
    case None
    then show ?thesis by simp
  next
    case (Some inhs)
    show ?thesis
    proof (cases "getDefinitions tys inhs")
      case (Inl e)
      with Some show ?thesis by simp
    next
      case (Inr ds)
      have "\<exists>r. getProperties (Suc h) tys p = Some r" if "p \<in> set ds" for p
      proof (rule Suc.IH)
        fix k assume k: "inherits_path tys p k"
        from that have "inherits_from tys d p"
          using getDefinitions_parents[OF Some Inr] by simp
        then have "inherits_path tys d (Suc k)" using k by (rule path_step)
        from Suc.prems[OF this] show "k \<le> h" by simp
      qed
      then have "\<exists>r. inheritLoop (getProperties (Suc h) tys) ds (ownProperties d) = Some r"
        by (rule inheritLoop_returns)
      with Some Inr show ?thesis by simp
    qed
  qed
qed

lemma finite_definitions: "finite {d. RequestOrInterface d \<in> set tys}"
proof -
  have "{d. RequestOrInterface d \<in> set tys} = RequestOrInterface -` set tys" by auto
  moreover have "finite (RequestOrInterface -` set tys)"
    by (rule finite_vimageI) (auto simp: inj_on_def)
  ultimately show ?thesis by simp
qed

lemma finite_inherits_rel: "finite (inherits_rel tys)"
proof (rule finite_subset)
  show "inherits_rel tys
      \<subseteq> {d. RequestOrInterface d \<in> set tys} \<times> {d. RequestOrInterface d \<in> set tys}"
    by (auto simp: inherits_rel_def dest: inherits_from_mem)
  show "finite ({d. RequestOrInterface d \<in> set tys} \<times> {d. RequestOrInterface d \<in> set tys})"
    using finite_definitions by blast
qed

lemma inherits_path_cases:
  "inherits_path tys d k \<Longrightarrow> k = 0 \<or> (\<exists>p j. k = Suc j \<and> inherits_from tys d p \<and> inherits_path tys p j)"
  by (erule inherits_path.cases) auto

lemma acyclic_bounded_depth:
  assumes ac: "acyclic (inherits_rel tys)"
  shows "RequestOrInterface d \<in> set tys \<Longrightarrow> \<exists>h. \<forall>k. inherits_path tys d k \<longrightarrow> k \<le> h"
proof -
  have wf: "wf ((inherits_rel tys)\<inverse>)"
    using finite_inherits_rel ac by (rule finite_acyclic_wf_converse)
  show "RequestOrInterface d \<in> set tys \<Longrightarrow> \<exists>h. \<forall>k. inherits_path tys d k \<longrightarrow> k \<le> h"
    using wf
  proof (induction d rule: wf_induct_rule)
    case (less d)
    let ?parents = "{p. inherits_from tys d p}"
    have fin: "finite ?parents"
      by (rule finite_subset[OF _ finite_definitions[of tys]]) (auto dest: inherits_from_mem)
    have "\<exists>h. \<forall>k. inherits_path tys p k \<longrightarrow> k \<le> h" if "p \<in> ?parents" for p
    proof (rule less.IH)
      from that less.prems show "(p, d) \<in> (inherits_rel tys)\<inverse>"
        by (simp add: inherits_rel_def)
      from that show "RequestOrInterface p \<in> set tys" by (auto dest: inherits_from_mem)
    qed
    then obtain bound where bound: "\<And>p k. p \<in> ?parents \<Longrightarrow> inherits_path tys p k \<Longrightarrow> k \<le> bound p"
      by metis
    let ?H = "Max (insert 0 (bound ` ?parents))"
    have "k \<le> Suc ?H" if "inherits_path tys d k" for k
      using inherits_path_cases[OF that]
    proof
      assume "k = 0" then show ?thesis by simp
    next
      assume "\<exists>p j. k = Suc j \<and> inherits_from tys d p \<and> inherits_path tys p j"
      then obtain p j where k: "k = Suc j" and p: "p \<in> ?parents" and j: "inherits_path tys p j"
        by blast
      have "j \<le> bound p" using bound[OF p j] .
      also have "bound p \<le> ?H" using fin p by (intro Max_ge) auto
      finally show ?thesis using k by simp
    qed
    then show ?case by blast
  qed
qed

lemma self_inheriting_diverges:
  "getProperties fuel [RequestOrInterface reqLoop] reqLoop = None"
  by (induction fuel) (simp_all add: reqLoop_def ext_def tn_def)

text \<open>
  Claim C9. When the inherits relation among the request and interface entities of the
  model is acyclic, the flattening of every entity of the model returns: the chains of
  inherits references that start at the entity have a greatest length \<open>h\<close> (its depth
  in the inheritance graph), and \<open>h + 1\<close> nested calls suffice. There is no cycle
  guard: without the precondition the flattening may run forever, as
  \<open>self_inheriting_diverges\<close> shows.
\<close>

theorem C9_termination:
  assumes "acyclic (inherits_rel tys)" and "RequestOrInterface d \<in> set tys"
  shows "\<exists>h. inherits_path tys d h \<and> (\<forall>k. inherits_path tys d k \<longrightarrow> k \<le> h)
           \<and> (\<exists>r. getProperties (Suc h) tys d = Some r)"
proof -
  from acyclic_bounded_depth[OF assms] obtain h0
    where h0: "\<forall>k. inherits_path tys d k \<longrightarrow> k \<le> h0" by blast
  let ?K = "{k. inherits_path tys d k}"
  have fin: "finite ?K"
    by (rule finite_subset[of _ "{..h0}"]) (use h0 in auto)
  have ne: "?K \<noteq> {}" using path_nil[of tys d] by blast
  have 1: "inherits_path tys d (Max ?K)" using Max_in[OF fin ne] by simp
  have 2: "\<forall>k. inherits_path tys d k \<longrightarrow> k \<le> Max ?K" using Max_ge[OF fin] by simp
  from 2 have "\<exists>r. getProperties (Suc (Max ?K)) tys d = Some r"
    by (intro getProperties_bounded_depth) simp
  with 1 2 show ?thesis by blast
qed

lemma acyclic_by_rank:
  assumes "\<And>c p. (c, p) \<in> r \<Longrightarrow> (f p :: nat) < f c"
  shows "acyclic r"
proof -
  have "r\<inverse> \<subseteq> measure f" using assms by auto
  then have "wf (r\<inverse>)" using wf_measure by (rule wf_subset[rotated])
  then have "acyclic (r\<inverse>)" by (rule wf_acyclic)
  then show ?thesis by simp
qed

lemma exTypes_parents:
  assumes "(c, p) \<in> inherits_rel exTypes"
  shows "def_inherits c \<noteq> None \<and> def_inherits p = None"
proof -
  from assms have c: "RequestOrInterface c \<in> set exTypes" and ip: "inherits_from exTypes c p"
    by (simp_all add: inherits_rel_def)
  from ip have 1: "def_inherits c \<noteq> None" using no_inherits_no_parent by blast
  from c have "c = reqA \<or> c = reqB \<or> c = reqR \<or> c = reqS \<or> c = reqA2 \<or> c = reqD"
    by (auto simp: exTypes_def)
  then have "p = reqA \<or> p = reqB \<or> p = reqA2"
    using ip
    by (auto simp: inherits_from_def exTypes_def reqA_def reqB_def reqR_def reqS_def reqA2_def
        reqD_def ext_def tn_def)
  then have "def_inherits p = None"
    by (auto simp: reqA_def reqB_def reqA2_def)
  with 1 show ?thesis by simp
qed

lemma acyclic_exTypes: "acyclic (inherits_rel exTypes)"
  by (rule acyclic_by_rank[where f = "\<lambda>d. case def_inherits d of None \<Rightarrow> 0 | Some _ \<Rightarrow> 1"])
     (auto dest!: exTypes_parents)

theorem C9_witness:
  "acyclic (inherits_rel exTypes) \<and> RequestOrInterface reqR \<in> set exTypes
   \<and> (\<exists>h. inherits_path exTypes reqR h \<and> (\<exists>r. getProperties (Suc h) exTypes reqR = Some r))"
proof -
  have m: "RequestOrInterface reqR \<in> set exTypes" by (simp add: exTypes_def)
  from C9_termination[OF acyclic_exTypes m] acyclic_exTypes m show ?thesis by blast
qed

subsection \<open>Errors of the flattening\<close>

lemma lineage_unfold:
  "lineage tys d a \<longleftrightarrow> a = d \<or> (\<exists>p. inherits_from tys d p \<and> lineage tys p a)"
proof
  assume "lineage tys d a"
  then show "a = d \<or> (\<exists>p. inherits_from tys d p \<and> lineage tys p a)"
    by (cases rule: lineage.cases) auto
next
  assume "a = d \<or> (\<exists>p. inherits_from tys d p \<and> lineage tys p a)"
  then show "lineage tys d a"
    by (auto intro: lineage_self lineage_step)
qed

lemma getProperties_error_iff:
  "getProperties fuel tys d = Some r \<Longrightarrow> isl r \<longleftrightarrow> (\<exists>a. lineage tys d a \<and> dangling tys a)"
proof (induction fuel arbitrary: d r)
  case 0
  then show ?case by simp
next
  case (Suc n)
  show ?case
  proof (cases "def_inherits d")
    case None
    then have "\<And>a. lineage tys d a \<Longrightarrow> a = d"
      using lineage_unfold[of tys d] no_inherits_no_parent by blast
    then have "\<not> (\<exists>a. lineage tys d a \<and> dangling tys a)"
      using no_inherits_not_dangling[OF None] by blast
    moreover from None Suc.prems have "\<not> isl r" by auto
    ultimately show ?thesis by simp
  next
    case (Some inhs)
    show ?thesis
    proof (cases "getDefinitions tys inhs")
      case (Inl e)
      then have "dangling tys d" using getDefinitions_dangling[OF Some] by blast
      then have "\<exists>a. lineage tys d a \<and> dangling tys a" using lineage_self by blast
      moreover from Some Inl Suc.prems have "isl r" by auto
      ultimately show ?thesis by simp
    next
      case (Inr ds)
      then have nd: "\<not> dangling tys d" using getDefinitions_dangling[OF Some] by simp
      from Some Inr Suc.prems
      have loop: "inheritLoop (getProperties n tys) ds (ownProperties d) = Some r" by simp
      show ?thesis
      proof
        assume "isl r"
        then obtain e where "r = Inl e" by (cases r) auto
        with loop obtain p where p: "p \<in> set ds" and "getProperties n tys p = Some (Inl e)"
          using inheritLoop_Inl_some by blast
        then obtain a where "lineage tys p a" and a: "dangling tys a"
          using Suc.IH[of p "Inl e"] by auto
        moreover from p have "inherits_from tys d p"
          using getDefinitions_parents[OF Some Inr] by simp
        ultimately have "lineage tys d a" by (auto intro: lineage_step)
        with a show "\<exists>a. lineage tys d a \<and> dangling tys a" by blast
      next
        assume "\<exists>a. lineage tys d a \<and> dangling tys a"
        then obtain a where l: "lineage tys d a" and a: "dangling tys a" by blast
        with nd have "a \<noteq> d" by blast
        with l obtain p where ip: "inherits_from tys d p" and lp: "lineage tys p a"
          using lineage_unfold[of tys d a] by blast
        then have p: "p \<in> set ds" using getDefinitions_parents[OF Some Inr] by simp
        show "isl r"
        proof (rule ccontr)
          assume "\<not> isl r"
          then obtain fp where "r = Inr fp" by (cases r) auto
          with loop p obtain q where q: "getProperties n tys p = Some (Inr q)"
            using inheritLoop_Inr_all by blast
          from Suc.IH[OF q] lp a show False by auto
        qed
      qed
    qed
  qed
qed

lemma getProperties_error_kind:
  "getProperties fuel tys d = Some (Inl e) \<Longrightarrow> \<exists>name. e = DefinitionNotFound name"
proof (induction fuel arbitrary: d)
  case 0
  then show ?case by simp
next
  case (Suc n)
  then obtain inhs where inhs: "def_inherits d = Some inhs" by (cases "def_inherits d") auto
  show ?case
  proof (cases "getDefinitions tys inhs")
    case (Inl e')
    with inhs Suc.prems have "e' = e" by simp
    with Inl show ?thesis
      using getDefinitions_Inl getDefinition_Inl by blast
  next
    case (Inr ds)
    with inhs Suc.prems
    have "inheritLoop (getProperties n tys) ds (ownProperties d) = Some (Inl e)" by simp
    then show ?thesis using inheritLoop_Inl_some Suc.IH by blast
  qed
qed

subsection \<open>Fatal errors of the pass\<close>

lemma reconcile_Inr: "\<exists>ws. reconcile rn fp spec = Inr ws"
  using reconcile_returns[of spec rn fp] by blast

lemma validateEndpoint_error_iff:
  assumes "validateEndpoint fuel tys jsonSpec endpoint = Some r"
  shows "(isl r \<longleftrightarrow> fatal tys jsonSpec endpoint)
       \<and> (\<forall>e. r = Inl e \<longrightarrow> (\<exists>name. e = DefinitionNotFound name \<or> e = SpecNotFound name))"
proof (cases "ep_request endpoint")
  case None
  with assms show ?thesis by (auto simp: validateEndpoint_def fatal_def)
next
  case (Some request)
  show ?thesis
  proof (cases "getDefinition tys (tn_name request)")
    case (Inl e)
    with Some assms have "r = Inl e" by (simp add: validateEndpoint_def)
    with Some Inl getDefinition_Inl[OF Inl] show ?thesis
      by (auto simp: fatal_def unresolved_def)
  next
    case (Inr d)
    with Some assms obtain g where g: "getProperties fuel tys d = Some g"
      by (cases "getProperties fuel tys d") (auto simp: validateEndpoint_def)
    show ?thesis
    proof (cases g)
      case (Inl e)
      with Some Inr g assms have r: "r = Inl e" by (simp add: validateEndpoint_def)
      from g Inl have "\<exists>a. lineage tys d a \<and> dangling tys a"
        using getProperties_error_iff[OF g] by simp
      then have "fatal tys jsonSpec endpoint"
        using Some Inr by (auto simp: fatal_def unresolved_def)
      moreover from g Inl have "\<exists>name. e = DefinitionNotFound name"
        using getProperties_error_kind by blast
      ultimately show ?thesis using r by auto
    next
      case (Inr fp)
      then have res: "\<not> unresolved tys (tn_name request)"
        using getProperties_error_iff[OF g] \<open>getDefinition tys (tn_name request) = Inr d\<close>
        by (auto simp: unresolved_def)
      show ?thesis
      proof (cases "jsonSpec (ep_name endpoint)")
        case None
        with Some \<open>getDefinition tys (tn_name request) = Inr d\<close> g Inr assms
        have "r = Inl (SpecNotFound (ep_name endpoint))"
          by (simp add: validateEndpoint_def LOG_def)
        with Some None show ?thesis by (auto simp: fatal_def)
      next
        case (Some spec)
        obtain ws where "reconcile (tn_name request) fp spec = Inr ws"
          using reconcile_Inr by blast
        with Some \<open>ep_request endpoint = Some request\<close>
          \<open>getDefinition tys (tn_name request) = Inr d\<close> g Inr assms
        have "r = Inr ws" by (simp add: validateEndpoint_def LOG_def)
        with Some res \<open>ep_request endpoint = Some request\<close> show ?thesis
          by (auto simp: fatal_def)
      qed
    qed
  qed
qed

lemma validateEndpoints_error_iff:
  "validateEndpoints fuel tys jsonSpec eps log = Some (log', res) \<Longrightarrow>
     (isl res \<longleftrightarrow> (\<exists>endpoint \<in> set eps. fatal tys jsonSpec endpoint))
   \<and> (\<forall>e. res = Inl e \<longrightarrow> (\<exists>name. e = DefinitionNotFound name \<or> e = SpecNotFound name))"
proof (induction eps arbitrary: log)
  case Nil
  then show ?case by auto
next
  case (Cons endpoint eps)
  from Cons.prems obtain r where r: "validateEndpoint fuel tys jsonSpec endpoint = Some r"
    by (cases "validateEndpoint fuel tys jsonSpec endpoint") auto
  note here = validateEndpoint_error_iff[OF r]
  show ?case
  proof (cases r)
    case (Inl e)
    with r Cons.prems have "res = Inl e" by simp
    with Inl here show ?thesis by auto
  next
    case (Inr ws)
    with r Cons.prems
    have "validateEndpoints fuel tys jsonSpec eps (log @ ws) = Some (log', res)" by simp
    from Cons.IH[OF this] Inr here show ?thesis by auto
  qed
qed

subsection \<open>The log at a fatal error\<close>

lemma validateEndpoints_append:
  "validateEndpoints fuel tys jsonSpec (xs @ ys) log =
     (case validateEndpoints fuel tys jsonSpec xs log of
        None \<Rightarrow> None
      | Some (log', Inl e) \<Rightarrow> Some (log', Inl e)
      | Some (log', Inr u) \<Rightarrow> validateEndpoints fuel tys jsonSpec ys log')"
  by (induction xs arbitrary: log) (auto split: option.splits sum.splits)

text \<open>
  Claim C7 (not as stated). If an endpoint's request name matches no declared request
  or interface, the pass should fail with \<open>DefinitionNotFound\<close> and no diagnostic
  should be emitted for any endpoint, the earlier ones included. The warnings of the
  earlier endpoints are printed before the throw: in \<open>exModel\<close> the first endpoint
  has printed its warning when the second one fails.
\<close>

theorem C7_counterexample:
  "endpoints exModel = [mkEndpoint ''a'' ''A'', mkEndpoint ''m'' ''Missing'']
   \<and> getDefinition (types exModel) ''Missing'' = Inl (DefinitionNotFound ''Missing'')
   \<and> validateRestSpec 1 exModel exJson
       = Some ([PathNotInModel ''A'' ''version''], Inl (DefinitionNotFound ''Missing''))"
  by code_simp

text \<open>
  Claim C7, amended. If an endpoint's request name matches no declared request or
  interface and the pass over the endpoints before it completes without throwing, then
  the pass fails with \<open>DefinitionNotFound\<close> for that name, and the diagnostics emitted
  are exactly those of the endpoints before it: none for the failing endpoint, none for
  a later one.
\<close>

theorem C7_abort_after_earlier_diagnostics:
  assumes "endpoints model = before @ endpoint # after"
    and "ep_request endpoint = Some request"
    and "getDefinition (types model) (tn_name request) = Inl e"
    and "validateRestSpec fuel (model \<lparr> endpoints := before \<rparr>) jsonSpec = Some (log, Inr m)"
  shows "validateRestSpec fuel model jsonSpec
           = Some (log, Inl (DefinitionNotFound (tn_name request)))"
proof -
  from assms(4) have b: "validateEndpoints fuel (types model) jsonSpec before [] = Some (log, Inr ())"
    by (auto simp: validateRestSpec_def split: option.splits sum.splits)
  have e: "e = DefinitionNotFound (tn_name request)"
    using assms(3) by (rule getDefinition_Inl)
  have "validateEndpoint fuel (types model) jsonSpec endpoint
          = Some (Inl (DefinitionNotFound (tn_name request)))"
    using assms(2,3) e by (simp add: validateEndpoint_def)
  then have "validateEndpoints fuel (types model) jsonSpec (endpoint # after) log
          = Some (log, Inl (DefinitionNotFound (tn_name request)))"
    by simp
  with b have "validateEndpoints fuel (types model) jsonSpec (endpoints model) []
          = Some (log, Inl (DefinitionNotFound (tn_name request)))"
    unfolding assms(1) validateEndpoints_append by simp
  then show ?thesis by (simp add: validateRestSpec_def)
qed

theorem C7_witness:
  "validateRestSpec 1 (exModel \<lparr> endpoints := [mkEndpoint ''a'' ''A''] \<rparr>) exJson
     = Some ([PathNotInModel ''A'' ''version''], Inr (exModel \<lparr> endpoints := [mkEndpoint ''a'' ''A''] \<rparr>))
   \<and> validateRestSpec 1 exModel exJson
     = Some ([PathNotInModel ''A'' ''version''], Inl (DefinitionNotFound ''Missing''))"
proof -
  have 1: "endpoints exModel = [mkEndpoint ''a'' ''A''] @ mkEndpoint ''m'' ''Missing'' # []"
    by (simp add: exModel_def)
  have 2: "ep_request (mkEndpoint ''m'' ''Missing'') = Some (tn ''Missing'')"
    by (simp add: mkEndpoint_def)
  have 3: "getDefinition (types exModel) (tn_name (tn ''Missing'')) = Inl (DefinitionNotFound ''Missing'')"
    by code_simp
  have 4: "validateRestSpec 1 (exModel \<lparr> endpoints := [mkEndpoint ''a'' ''A''] \<rparr>) exJson
     = Some ([PathNotInModel ''A'' ''version''], Inr (exModel \<lparr> endpoints := [mkEndpoint ''a'' ''A''] \<rparr>))"
    by code_simp
  from C7_abort_after_earlier_diagnostics[OF 1 2 3 4] 4 show ?thesis
    by (simp add: tn_def)
qed

subsection \<open>Repeated names\<close>

text \<open>
  Claim C10 (not as stated). The diagnostics of an endpoint should be the same as if
  each name occurred exactly once in the flattened result. The request \<open>D\<close> inherits
  the path property \<open>id\<close> from two ancestors and its JSON spec has no path part: the
  warning for \<open>id\<close> is printed twice, and once when \<open>id\<close> occurs once.
\<close>

theorem C10_counterexample:
  "getProperties 2 exTypes reqD
     = Some (Inr \<lparr> fl_path = [mkProp ''id'', mkProp ''id''], fl_query = [], fl_body = noBody \<rparr>)
   \<and> reconcile ''D'' \<lparr> fl_path = [mkProp ''id'', mkProp ''id''], fl_query = [], fl_body = noBody \<rparr>
        (mkSpec [] None)
     = Inr [PathNotInSpec ''D'' ''id'', PathNotInSpec ''D'' ''id'']
   \<and> reconcile ''D''
        (once \<lparr> fl_path = [mkProp ''id'', mkProp ''id''], fl_query = [], fl_body = noBody \<rparr>)
        (mkSpec [] None)
     = Inr [PathNotInSpec ''D'' ''id'']"
  by code_simp

lemma set_pathDiagnostics:
  "set (pathDiagnostics rn fp urlParts)
     = PathNotInSpec rn ` (prop_name ` set (fl_path fp) - set urlParts)
       \<union> PathNotInModel rn ` (set urlParts - prop_name ` set (fl_path fp))"
  by (simp add: pathDiagnostics_def Let_def set_warnAbsent)

lemma set_queryDiagnostics:
  "set (queryDiagnostics rn fp spec)
     = (case js_params spec of
          None \<Rightarrow> {}
        | Some ps \<Rightarrow> QueryNotInSpec rn ` (prop_name ` set (fl_query fp) - set (Object_keys ps))
                    \<union> QueryNotInModel rn ` (set (Object_keys ps) - prop_name ` set (fl_query fp)))"
  by (cases "js_params spec") (simp_all add: queryDiagnostics_def Let_def set_warnAbsent)

lemma reconcile_membership:
  assumes "prop_name ` set (fl_path fp) = prop_name ` set (fl_path fp')"
    and "prop_name ` set (fl_query fp) = prop_name ` set (fl_query fp')"
    and "fl_body fp = fl_body fp'"
  shows "\<exists>ws ws'. reconcile rn fp spec = Inr ws \<and> reconcile rn fp' spec = Inr ws'
           \<and> set ws = set ws'"
proof -
  obtain urlParts where u: "urlPartsOf spec = Inr urlParts"
    using urlPartsOf_returns by blast
  have b: "bodyDiagnostics rn fp spec = bodyDiagnostics rn fp' spec"
    using assms(3) by (simp add: bodyDiagnostics_def)
  have "set (pathDiagnostics rn fp urlParts @ queryDiagnostics rn fp spec @ bodyDiagnostics rn fp spec)
      = set (pathDiagnostics rn fp' urlParts @ queryDiagnostics rn fp' spec @ bodyDiagnostics rn fp' spec)"
    unfolding set_append set_pathDiagnostics set_queryDiagnostics b assms(1,2) ..
  then show ?thesis
    by (simp add: reconcile_def u)
qed

text \<open>
  Claim C10, amended. The comparison operates on membership, not on multiplicity or
  order: the set of diagnostics of an endpoint is the same as if each name occurred
  exactly once in the flattened path and query results, and more generally the same for
  any two flattened results with the same path names, the same query names and the
  same body state.
\<close>

theorem C10_membership_decides:
  "(\<exists>ws ws'. reconcile rn fp spec = Inr ws \<and> reconcile rn (once fp) spec = Inr ws'
       \<and> set ws = set ws')
   \<and> (\<forall>fp'. prop_name ` set (fl_path fp') = prop_name ` set (fl_path fp)
           \<and> prop_name ` set (fl_query fp') = prop_name ` set (fl_query fp)
           \<and> fl_body fp' = fl_body fp
         \<longrightarrow> (\<exists>ws ws'. reconcile rn fp spec = Inr ws \<and> reconcile rn fp' spec = Inr ws'
                \<and> set ws = set ws'))"
proof (intro conjI allI impI)
  show "\<exists>ws ws'. reconcile rn fp spec = Inr ws \<and> reconcile rn (once fp) spec = Inr ws'
       \<and> set ws = set ws'"
    by (rule reconcile_membership) (simp_all add: once_def)
next
  fix fp' :: Flattened
  assume "prop_name ` set (fl_path fp') = prop_name ` set (fl_path fp)
           \<and> prop_name ` set (fl_query fp') = prop_name ` set (fl_query fp)
           \<and> fl_body fp' = fl_body fp"
  then show "\<exists>ws ws'. reconcile rn fp spec = Inr ws \<and> reconcile rn fp' spec = Inr ws'
                \<and> set ws = set ws'"
    by (intro reconcile_membership) simp_all
qed

theorem C10_witness:
  "(\<exists>ws ws'.
      reconcile ''D'' \<lparr> fl_path = [mkProp ''id'', mkProp ''id''], fl_query = [], fl_body = noBody \<rparr>
        (mkSpec [] None) = Inr ws
    \<and> reconcile ''D''
        (once \<lparr> fl_path = [mkProp ''id'', mkProp ''id''], fl_query = [], fl_body = noBody \<rparr>)
        (mkSpec [] None) = Inr ws'
    \<and> set ws = set ws')
   \<and> (\<exists>ws ws'.
      reconcile ''D'' \<lparr> fl_path = [mkProp ''id'', mkProp ''id''], fl_query = [], fl_body = noBody \<rparr>
        (mkSpec [] None) = Inr ws
    \<and> reconcile ''D'' \<lparr> fl_path = [mkProp ''id''], fl_query = [], fl_body = noBody \<rparr>
        (mkSpec [] None) = Inr ws'
    \<and> set ws = set ws')"
proof -
  let ?fp = "\<lparr> fl_path = [mkProp ''id'', mkProp ''id''], fl_query = [], fl_body = noBody \<rparr>"
  let ?fp' = "\<lparr> fl_path = [mkProp ''id''], fl_query = [], fl_body = noBody \<rparr>"
  note C10 = C10_membership_decides[of "''D''" ?fp "mkSpec [] None"]
  have same: "prop_name ` set (fl_path ?fp') = prop_name ` set (fl_path ?fp)
           \<and> prop_name ` set (fl_query ?fp') = prop_name ` set (fl_query ?fp)
           \<and> fl_body ?fp' = fl_body ?fp"
    by simp
  from C10 have 1: "\<exists>ws ws'. reconcile ''D'' ?fp (mkSpec [] None) = Inr ws
      \<and> reconcile ''D'' (once ?fp) (mkSpec [] None) = Inr ws' \<and> set ws = set ws'"
    by (rule conjunct1)
  have 2: "\<exists>ws ws'. reconcile ''D'' ?fp (mkSpec [] None) = Inr ws
      \<and> reconcile ''D'' ?fp' (mkSpec [] None) = Inr ws' \<and> set ws = set ws'"
    using C10[THEN conjunct2, THEN spec, of ?fp'] same by (rule mp)
  from 1 2 show ?thesis by (rule conjI)
qed

subsection \<open>Inherited path and query properties\<close>

lemma inheritLoop_union:
  assumes sel: "\<And>acc p. set (sel (absorb acc p)) = set (sel acc) \<union> set (sel p)"
    and "inheritLoop f ds acc = Some (Inr fp)"
    and "\<And>p q. p \<in> set ds \<Longrightarrow> f p = Some (Inr q) \<Longrightarrow> set (sel q) = S p"
  shows "set (sel fp) = set (sel acc) \<union> (\<Union>p \<in> set ds. S p)"
  using assms(2,3)
proof (induction ds arbitrary: acc)
  case Nil
  then show ?case by simp
next
  case (Cons d ds)
  from Cons.prems(1) obtain q where q: "f d = Some (Inr q)"
    and rest: "inheritLoop f ds (absorb acc q) = Some (Inr fp)"
    by (auto split: option.splits sum.splits)
  have "set (sel fp) = set (sel (absorb acc q)) \<union> (\<Union>p \<in> set ds. S p)"
    using rest Cons.prems(2) by (intro Cons.IH) auto
  moreover have "set (sel q) = S d" using Cons.prems(2) q by simp
  ultimately show ?case by (auto simp: sel)
qed

lemma lineage_Collect:
  "Collect (lineage tys d) = insert d (\<Union>p \<in> {p. inherits_from tys d p}. Collect (lineage tys p))"
  using lineage_unfold[of tys d] by auto

lemma getProperties_union:
  assumes sel: "\<And>acc p. set (sel (absorb acc p)) = set (sel acc) \<union> set (sel p)"
  shows "getProperties fuel tys d = Some (Inr fp) \<Longrightarrow>
           set (sel fp) = (\<Union>a \<in> Collect (lineage tys d). set (sel (ownProperties a)))"
proof (induction fuel arbitrary: d fp)
  case 0
  then show ?case by simp
next
  case (Suc n)
  show ?case
  proof (cases "def_inherits d")
    case None
    then have "{p. inherits_from tys d p} = {}" using no_inherits_no_parent by blast
    then have "Collect (lineage tys d) = {d}" using lineage_Collect[of tys d] by simp
    moreover from None Suc.prems have "fp = ownProperties d" by simp
    ultimately show ?thesis by simp
  next
    case (Some inhs)
    with Suc.prems obtain ds where ds: "getDefinitions tys inhs = Inr ds"
      and loop: "inheritLoop (getProperties n tys) ds (ownProperties d) = Some (Inr fp)"
      by (auto split: sum.splits)
    have parents: "set ds = {p. inherits_from tys d p}"
      using getDefinitions_parents[OF Some ds] by blast
    have "set (sel fp) = set (sel (ownProperties d))
        \<union> (\<Union>p \<in> set ds. \<Union>a \<in> Collect (lineage tys p). set (sel (ownProperties a)))"
      using sel loop by (rule inheritLoop_union) (rule Suc.IH)
    also have "\<dots> = (\<Union>a \<in> Collect (lineage tys d). set (sel (ownProperties a)))"
      unfolding parents by (subst (2) lineage_Collect) auto
    finally show ?thesis .
  qed
qed

section \<open>The code and the words of the specification\<close>

subsection \<open>Lookup, declared properties and inheritance\<close>

lemma entity_name_def_name: "entity_name d = tn_name (def_name d)"
  by (cases d) (simp_all add: entity_name_def)

lemma declared_inherits_def_inherits:
  "declared_inherits d = (case def_inherits d of None \<Rightarrow> [] | Some inhs \<Rightarrow> inhs)"
  by (cases d) (simp_all add: declared_inherits_def)

lemma own_declared_path: "fl_path (ownProperties d) = declared_path d"
  by (cases d) (simp_all add: declared_path_def)

lemma own_declared_query: "fl_query (ownProperties d) = declared_query d"
  by (cases d) (simp_all add: declared_query_def)

lemma set_entities: "set (entities tys) = {d. RequestOrInterface d \<in> set tys}"
  by (induction tys) (auto simp: entities_def split: TypeDefinition.splits)

lemma getDefinition_entity_named:
  "getDefinition tys name =
     (case entity_named tys name of None \<Rightarrow> Inl (DefinitionNotFound name) | Some d \<Rightarrow> Inr d)"
  by (induction tys name rule: getDefinition.induct)
     (simp_all add: entity_named_def entities_def entity_name_def_name)

lemma inherits_from_parent_entity: "inherits_from tys child parent \<longleftrightarrow> parent_entity tys child parent"
  by (auto simp: inherits_from_def parent_entity_def declared_inherits_def_inherits
      getDefinition_entity_named split: option.splits)

lemma dangling_missing_parent: "dangling tys d \<longleftrightarrow> missing_parent tys d"
  by (auto simp: dangling_def missing_parent_def declared_inherits_def_inherits
      getDefinition_entity_named split: option.splits)

lemma lineage_ancestor_or_self: "lineage tys d a \<longleftrightarrow> ancestor_or_self tys d a"
proof
  assume "lineage tys d a"
  then show "ancestor_or_self tys d a"
    unfolding ancestor_or_self_def
    by (induction rule: lineage.induct)
       (auto simp: inherits_from_parent_entity intro: converse_rtranclp_into_rtranclp)
next
  assume "ancestor_or_self tys d a"
  then have "(parent_entity tys)\<^sup>*\<^sup>* d a" by (simp add: ancestor_or_self_def)
  then show "lineage tys d a"
    by (induction rule: converse_rtranclp_induct)
       (auto simp: inherits_from_parent_entity[symmetric] intro: lineage_self lineage_step)
qed

lemma unresolved_undefined_request: "unresolved tys name \<longleftrightarrow> undefined_request tys name"
  by (simp add: unresolved_def undefined_request_def getDefinition_entity_named
      lineage_ancestor_or_self dangling_missing_parent split: option.splits)

lemma inherits_rel_entities:
  "inherits_rel tys = {(child, parent). child \<in> set (entities tys) \<and> parent_entity tys child parent}"
  by (simp add: inherits_rel_def set_entities inherits_from_parent_entity)

lemma acyclic_inheritance_rel: "acyclic_inheritance tys \<longleftrightarrow> acyclic (inherits_rel tys)"
  by (simp add: acyclic_inheritance_def inherits_rel_entities)

lemma ancestors_unfold:
  "Collect (ancestor_or_self tys d) = Collect (lineage tys d)"
  by (auto simp: lineage_ancestor_or_self)

subsection \<open>The example with two levels of ancestors\<close>

lemma treeTypes_entities:
  "entities treeTypes = [ifCommon, reqBase, reqIdx, reqTop, reqOrphan]"
  by (simp add: entities_def treeTypes_def)

lemma treeTypes_inherits:
  "declared_inherits ifCommon = []" "declared_inherits reqIdx = []"
  "declared_inherits reqBase = [ext ''CommonQuery'']"
  "declared_inherits reqTop = [ext ''Base'', ext ''Idx'']"
  "declared_inherits reqOrphan = [ext ''Nowhere'']"
  by (simp_all add: declared_inherits_def ifCommon_def reqIdx_def reqBase_def reqTop_def
      reqOrphan_def)

lemma treeTypes_named:
  "entity_named treeTypes (tn_name (inh_type (ext ''CommonQuery''))) = Some ifCommon"
  "entity_named treeTypes (tn_name (inh_type (ext ''Base''))) = Some reqBase"
  "entity_named treeTypes (tn_name (inh_type (ext ''Idx''))) = Some reqIdx"
  "entity_named treeTypes (tn_name (inh_type (ext ''Nowhere''))) = None"
  by code_simp+

lemma treeTypes_names:
  "entity_name ifCommon = ''CommonQuery''" "entity_name reqBase = ''Base''"
  "entity_name reqIdx = ''Idx''" "entity_name reqTop = ''Top''"
  by code_simp+

lemma acyclic_treeTypes: "acyclic_inheritance treeTypes"
  unfolding acyclic_inheritance_def
proof (rule acyclic_by_rank[where f = "\<lambda>d. if entity_name d = ''Top'' then 2
      else if entity_name d = ''Base'' then 1 else 0"])
  fix c p
  assume "(c, p) \<in> {(child, parent). child \<in> set (entities treeTypes)
      \<and> parent_entity treeTypes child parent}"
  then have c: "c \<in> set (entities treeTypes)" and p: "parent_entity treeTypes c p" by simp_all
  from c have "c = ifCommon \<or> c = reqBase \<or> c = reqIdx \<or> c = reqTop \<or> c = reqOrphan"
    by (simp add: treeTypes_entities)
  then have "(c = reqBase \<and> p = ifCommon) \<or> (c = reqTop \<and> (p = reqBase \<or> p = reqIdx))"
    using p by (auto simp: parent_entity_def treeTypes_inherits treeTypes_named)
  then show "(if entity_name p = ''Top'' then 2 else if entity_name p = ''Base'' then 1 else 0)
      < (if entity_name c = ''Top'' then 2 else if entity_name c = ''Base'' then 1 else (0::nat))"
    by (auto simp: treeTypes_names)
qed

subsection \<open>Inheritance union\<close>

text \<open>
  Claim C3. Let \<open>R\<close> inherit from \<open>A\<close> and \<open>B\<close> (its inherits references name them, in
  this order), let the flattenings of \<open>A\<close> and \<open>B\<close> return, let \<open>A\<close> declare a path
  property named \<open>id\<close> and \<open>B\<close> one named \<open>index\<close>. Then the flattening of \<open>R\<close>
  returns, its path names contain \<open>id\<close> and \<open>index\<close> whatever \<open>R\<close> declares itself, and
  its path and query properties are the union of the path and query properties
  declared by \<open>R\<close> and by all its transitive ancestors (for an interface: no path
  property, its properties as query properties).
\<close>

theorem C3_inheritance_union:
  assumes "declared_inherits R = [iA, iB]"
    and "entity_named tys (tn_name (inh_type iA)) = Some A"
    and "entity_named tys (tn_name (inh_type iB)) = Some B"
    and "getProperties fuel tys A = Some (Inr fa)"
    and "getProperties fuel tys B = Some (Inr fb)"
    and "name_id \<in> prop_name ` set (declared_path A)"
    and "name_index \<in> prop_name ` set (declared_path B)"
  shows "\<exists>fp. getProperties (Suc fuel) tys R = Some (Inr fp)
     \<and> name_id \<in> prop_name ` set (fl_path fp) \<and> name_index \<in> prop_name ` set (fl_path fp)
     \<and> set (fl_path fp) = (\<Union>a \<in> Collect (ancestor_or_self tys R). set (declared_path a))
     \<and> set (fl_query fp) = (\<Union>a \<in> Collect (ancestor_or_self tys R). set (declared_query a))"
proof -
  have inh: "def_inherits R = Some [iA, iB]"
    using assms(1) by (auto simp: declared_inherits_def_inherits split: option.splits)
  have dA: "getDefinition tys (tn_name (inh_type iA)) = Inr A"
    and dB: "getDefinition tys (tn_name (inh_type iB)) = Inr B"
    using assms(2,3) by (simp_all add: getDefinition_entity_named)
  let ?fp = "absorb (absorb (ownProperties R) fa) fb"
  have r: "getProperties (Suc fuel) tys R = Some (Inr ?fp)"
    using inh dA dB assms(4,5) by simp
  have p: "set (fl_path ?fp) = (\<Union>a \<in> Collect (ancestor_or_self tys R). set (declared_path a))"
    unfolding ancestors_unfold own_declared_path[symmetric]
    using r by (rule getProperties_union[rotated]) (simp add: absorb_simps)
  have q: "set (fl_query ?fp) = (\<Union>a \<in> Collect (ancestor_or_self tys R). set (declared_query a))"
    unfolding ancestors_unfold own_declared_query[symmetric]
    using r by (rule getProperties_union[rotated]) (simp add: absorb_simps)
  have "parent_entity tys R A" "parent_entity tys R B"
    using assms(1-3) by (auto simp: parent_entity_def)
  then have "ancestor_or_self tys R A" "ancestor_or_self tys R B"
    by (auto simp: ancestor_or_self_def)
  then have "set (declared_path A) \<subseteq> set (fl_path ?fp)"
    and "set (declared_path B) \<subseteq> set (fl_path ?fp)"
    unfolding p by blast+
  with assms(6,7) have "name_id \<in> prop_name ` set (fl_path ?fp)"
    "name_index \<in> prop_name ` set (fl_path ?fp)"
    by blast+
  with r p q show ?thesis by blast
qed

theorem C3_witness:
  "getProperties 3 treeTypes reqTop
     = Some (Inr \<lparr> fl_path = [mkProp ''id'', mkProp ''index''],
                   fl_query = [mkProp ''refresh'', mkProp ''pretty'', mkProp ''routing''],
                   fl_body = noBody \<rparr>)
   \<and> (\<exists>fp. getProperties 3 treeTypes reqTop = Some (Inr fp)
        \<and> ''id'' \<in> prop_name ` set (fl_path fp) \<and> ''index'' \<in> prop_name ` set (fl_path fp)
        \<and> mkProp ''pretty'' \<in> set (fl_query fp) \<and> mkProp ''refresh'' \<in> set (fl_query fp)
        \<and> mkProp ''routing'' \<in> set (fl_query fp))"
proof -
  have v: "getProperties 3 treeTypes reqTop
     = Some (Inr \<lparr> fl_path = [mkProp ''id'', mkProp ''index''],
                   fl_query = [mkProp ''refresh'', mkProp ''pretty'', mkProp ''routing''],
                   fl_body = noBody \<rparr>)"
    by code_simp
  have 1: "declared_inherits reqTop = [ext ''Base'', ext ''Idx'']"
    by (simp add: reqTop_def declared_inherits_def)
  have 2: "entity_named treeTypes (tn_name (inh_type (ext ''Base''))) = Some reqBase" by code_simp
  have 3: "entity_named treeTypes (tn_name (inh_type (ext ''Idx''))) = Some reqIdx" by code_simp
  have 4: "getProperties 2 treeTypes reqBase
      = Some (Inr \<lparr> fl_path = [mkProp ''id''], fl_query = [mkProp ''refresh'', mkProp ''pretty''],
                    fl_body = noBody \<rparr>)" by code_simp
  have 5: "getProperties 2 treeTypes reqIdx
      = Some (Inr \<lparr> fl_path = [mkProp ''index''], fl_query = [mkProp ''routing''],
                    fl_body = noBody \<rparr>)" by code_simp
  have 6: "''id'' \<in> prop_name ` set (declared_path reqBase)"
    by (simp add: reqBase_def mkProp_def declared_path_def)
  have 7: "''index'' \<in> prop_name ` set (declared_path reqIdx)"
    by (simp add: reqIdx_def mkProp_def declared_path_def)
  from C3_inheritance_union[OF 1 2 3 4 5 6 7] obtain fp
    where fp: "getProperties (Suc 2) treeTypes reqTop = Some (Inr fp)"
      and ids: "''id'' \<in> prop_name ` set (fl_path fp)" "''index'' \<in> prop_name ` set (fl_path fp)"
      and q: "set (fl_query fp)
          = (\<Union>a \<in> Collect (ancestor_or_self treeTypes reqTop). set (declared_query a))"
    by blast
  have "entity_named treeTypes (tn_name (inh_type (ext ''CommonQuery''))) = Some ifCommon"
    by code_simp
  then have "parent_entity treeTypes reqBase ifCommon"
    by (auto simp: parent_entity_def declared_inherits_def reqBase_def)
  moreover have "parent_entity treeTypes reqTop reqBase" "parent_entity treeTypes reqTop reqIdx"
    using 1 2 3 by (auto simp: parent_entity_def)
  ultimately have a: "ancestor_or_self treeTypes reqTop ifCommon"
    "ancestor_or_self treeTypes reqTop reqBase" "ancestor_or_self treeTypes reqTop reqIdx"
    unfolding ancestor_or_self_def by (auto intro: rtranclp.rtrancl_into_rtrancl)
  have "mkProp ''pretty'' \<in> set (declared_query ifCommon)"
    "mkProp ''refresh'' \<in> set (declared_query reqBase)"
    "mkProp ''routing'' \<in> set (declared_query reqIdx)"
    by (simp_all add: declared_query_def ifCommon_def reqBase_def reqIdx_def)
  with a have "mkProp ''pretty'' \<in> set (fl_query fp)" "mkProp ''refresh'' \<in> set (fl_query fp)"
    "mkProp ''routing'' \<in> set (fl_query fp)"
    unfolding q by blast+
  with fp ids v show ?thesis by (simp add: eval_nat_numeral)
qed

section \<open>Fatal errors on an acyclic model\<close>

subsection \<open>The pass comes to an end\<close>

lemma validateEndpoint_mono:
  assumes "validateEndpoint fuel tys jsonSpec endpoint = Some r" and "fuel \<le> fuel'"
  shows "validateEndpoint fuel' tys jsonSpec endpoint = Some r"
proof (cases "ep_request endpoint")
  case None
  with assms show ?thesis by (simp add: validateEndpoint_def)
next
  case (Some request)
  show ?thesis
  proof (cases "getDefinition tys (tn_name request)")
    case (Inl e)
    with Some assms show ?thesis by (simp add: validateEndpoint_def)
  next
    case (Inr d)
    with Some assms(1) obtain g where g: "getProperties fuel tys d = Some g"
      by (cases "getProperties fuel tys d") (auto simp: validateEndpoint_def)
    then have "getProperties fuel' tys d = Some g"
      using assms(2) by (rule getProperties_mono)
    with g Some Inr assms(1) show ?thesis by (simp add: validateEndpoint_def)
  qed
qed

lemma validateEndpoints_mono:
  "validateEndpoints fuel tys jsonSpec eps log = Some x \<Longrightarrow> fuel \<le> fuel' \<Longrightarrow>
     validateEndpoints fuel' tys jsonSpec eps log = Some x"
proof (induction eps arbitrary: log)
  case Nil
  then show ?case by simp
next
  case (Cons endpoint eps)
  from Cons.prems(1) obtain r where r: "validateEndpoint fuel tys jsonSpec endpoint = Some r"
    by (cases "validateEndpoint fuel tys jsonSpec endpoint") auto
  then have r': "validateEndpoint fuel' tys jsonSpec endpoint = Some r"
    using Cons.prems(2) by (rule validateEndpoint_mono)
  show ?case
  proof (cases r)
    case (Inl e)
    with r r' Cons.prems(1) show ?thesis by simp
  next
    case (Inr ws)
    with r Cons.prems(1) have "validateEndpoints fuel tys jsonSpec eps (log @ ws) = Some x" by simp
    then have "validateEndpoints fuel' tys jsonSpec eps (log @ ws) = Some x"
      using Cons.prems(2) by (rule Cons.IH)
    with r' Inr show ?thesis by simp
  qed
qed

lemma validateRestSpec_mono:
  assumes "validateRestSpec fuel model jsonSpec = Some x" and "fuel \<le> fuel'"
  shows "validateRestSpec fuel' model jsonSpec = Some x"
proof -
  from assms(1) obtain y
    where y: "validateEndpoints fuel (types model) jsonSpec (endpoints model) [] = Some y"
    by (cases "validateEndpoints fuel (types model) jsonSpec (endpoints model) []")
       (auto simp: validateRestSpec_def)
  then have "validateEndpoints fuel' (types model) jsonSpec (endpoints model) [] = Some y"
    using assms(2) by (rule validateEndpoints_mono)
  with y assms(1) show ?thesis by (simp add: validateRestSpec_def)
qed

lemma validateRestSpec_stable:
  assumes "\<forall>fuel'. fuel \<le> fuel' \<longrightarrow> validateRestSpec fuel' model jsonSpec = Some x"
    and "validateRestSpec n model jsonSpec = Some y"
  shows "x = y"
proof -
  have "validateRestSpec (max fuel n) model jsonSpec = Some x" using assms(1) by simp
  moreover have "validateRestSpec (max fuel n) model jsonSpec = Some y"
    using assms(2) by (rule validateRestSpec_mono) simp
  ultimately show ?thesis by simp
qed

lemma acyclic_uniform_fuel:
  assumes "acyclic (inherits_rel tys)"
  shows "\<exists>fuel. \<forall>d. RequestOrInterface d \<in> set tys \<longrightarrow> (\<exists>r. getProperties fuel tys d = Some r)"
proof -
  let ?D = "{d. RequestOrInterface d \<in> set tys}"
  have "\<exists>n. \<exists>r. getProperties n tys d = Some r" if "d \<in> ?D" for d
  proof -
    from that acyclic_bounded_depth[OF assms] obtain h
      where "\<forall>k. inherits_path tys d k \<longrightarrow> k \<le> h" by blast
    then have "\<exists>r. getProperties (Suc h) tys d = Some r"
      by (intro getProperties_bounded_depth) simp
    then show ?thesis by blast
  qed
  then obtain f where f: "\<And>d. d \<in> ?D \<Longrightarrow> \<exists>r. getProperties (f d) tys d = Some r"
    by metis
  let ?F = "Max (insert 0 (f ` ?D))"
  have "\<exists>r. getProperties ?F tys d = Some r" if "d \<in> ?D" for d
  proof -
    from f[OF that] obtain r where r: "getProperties (f d) tys d = Some r" by blast
    have "f d \<le> ?F" using finite_definitions[of tys] that by (intro Max_ge) auto
    with r have "getProperties ?F tys d = Some r" by (rule getProperties_mono)
    then show ?thesis by blast
  qed
  then show ?thesis by blast
qed

lemma validateEndpoint_returns:
  assumes "\<forall>d. RequestOrInterface d \<in> set tys \<longrightarrow> (\<exists>r. getProperties fuel tys d = Some r)"
  shows "\<exists>r. validateEndpoint fuel tys jsonSpec endpoint = Some r"
proof (cases "ep_request endpoint")
  case None
  then show ?thesis by (simp add: validateEndpoint_def)
next
  case (Some request)
  show ?thesis
  proof (cases "getDefinition tys (tn_name request)")
    case (Inl e)
    with Some show ?thesis by (simp add: validateEndpoint_def)
  next
    case (Inr d)
    then have "RequestOrInterface d \<in> set tys" by (rule getDefinition_mem)
    with assms obtain g where "getProperties fuel tys d = Some g" by blast
    with Some Inr show ?thesis
      by (cases g; cases "jsonSpec (ep_name endpoint)")
         (simp_all add: validateEndpoint_def LOG_def)
  qed
qed

lemma validateEndpoints_returns:
  assumes "\<forall>d. RequestOrInterface d \<in> set tys \<longrightarrow> (\<exists>r. getProperties fuel tys d = Some r)"
  shows "\<exists>x. validateEndpoints fuel tys jsonSpec eps log = Some x"
proof (induction eps arbitrary: log)
  case Nil
  then show ?case by simp
next
  case (Cons endpoint eps)
  from validateEndpoint_returns[OF assms] obtain r
    where r: "validateEndpoint fuel tys jsonSpec endpoint = Some r" by blast
  show ?case
  proof (cases r)
    case (Inl e)
    with r show ?thesis by simp
  next
    case (Inr ws)
    with r Cons.IH[of "log @ ws"] show ?thesis by simp
  qed
qed

lemma validateRestSpec_returns:
  assumes "acyclic (inherits_rel (types model))"
  shows "\<exists>fuel x. \<forall>fuel'. fuel \<le> fuel' \<longrightarrow> validateRestSpec fuel' model jsonSpec = Some x"
proof -
  from acyclic_uniform_fuel[OF assms] obtain fuel where
    "\<forall>d. RequestOrInterface d \<in> set (types model)
        \<longrightarrow> (\<exists>r. getProperties fuel (types model) d = Some r)" by blast
  from validateEndpoints_returns[OF this] obtain y
    where "validateEndpoints fuel (types model) jsonSpec (endpoints model) [] = Some y" by blast
  then obtain x where "validateRestSpec fuel model jsonSpec = Some x"
    by (cases y; cases "snd y") (auto simp: validateRestSpec_def)
  then have "\<forall>fuel'. fuel \<le> fuel' \<longrightarrow> validateRestSpec fuel' model jsonSpec = Some x"
    using validateRestSpec_mono by blast
  then show ?thesis by blast
qed

subsection \<open>Which error is thrown\<close>

lemma getProperties_error_undeclared:
  "getProperties fuel tys d = Some (Inl e) \<Longrightarrow>
     \<exists>name. e = DefinitionNotFound name \<and> getDefinition tys name = Inl e"
proof (induction fuel arbitrary: d)
  case 0
  then show ?case by simp
next
  case (Suc n)
  then obtain inhs where inhs: "def_inherits d = Some inhs" by (cases "def_inherits d") auto
  show ?case
  proof (cases "getDefinitions tys inhs")
    case (Inl e')
    with inhs Suc.prems have "e' = e" by simp
    with Inl have "getDefinitions tys inhs = Inl e" by simp
    from getDefinitions_Inl[OF this] obtain inherit :: Inherits
      where i: "getDefinition tys (tn_name (inh_type inherit)) = Inl e" by blast
    from getDefinition_Inl[OF i] i show ?thesis by blast
  next
    case (Inr ds)
    with inhs Suc.prems
    have "inheritLoop (getProperties n tys) ds (ownProperties d) = Some (Inl e)" by simp
    then show ?thesis using inheritLoop_Inl_some Suc.IH by blast
  qed
qed

lemma validateEndpoint_thrown:
  assumes "validateEndpoint fuel tys jsonSpec endpoint = Some (Inl e)"
  shows "thrown_at tys jsonSpec e endpoint"
proof -
  from assms obtain request where rq: "ep_request endpoint = Some request"
    by (cases "ep_request endpoint") (auto simp: validateEndpoint_def)
  show ?thesis
  proof (cases "getDefinition tys (tn_name request)")
    case (Inl e')
    with rq assms have "e' = e" by (simp add: validateEndpoint_def)
    with Inl getDefinition_Inl[OF Inl] rq show ?thesis
      by (auto simp: thrown_at_def undefined_request_def getDefinition_entity_named
          split: option.splits)
  next
    case (Inr d)
    with rq assms obtain g where g: "getProperties fuel tys d = Some g"
      by (cases "getProperties fuel tys d") (auto simp: validateEndpoint_def)
    show ?thesis
    proof (cases g)
      case (Inl e')
      with rq Inr g assms have "e' = e" by (simp add: validateEndpoint_def)
      with g Inl obtain name where "e = DefinitionNotFound name" "getDefinition tys name = Inl e"
        using getProperties_error_undeclared by blast
      then have n: "e = DefinitionNotFound name \<and> entity_named tys name = None"
        by (auto simp: getDefinition_entity_named split: option.splits)
      from g Inl have "unresolved tys (tn_name request)"
        using getProperties_error_iff[OF g] Inr by (auto simp: unresolved_def)
      with n rq show ?thesis
        by (auto simp: thrown_at_def unresolved_undefined_request)
    next
      case (Inr fp)
      then have "\<not> unresolved tys (tn_name request)"
        using getProperties_error_iff[OF g] \<open>getDefinition tys (tn_name request) = Inr d\<close>
        by (auto simp: unresolved_def)
      moreover have "jsonSpec (ep_name endpoint) = None \<and> e = SpecNotFound (ep_name endpoint)"
      proof (cases "jsonSpec (ep_name endpoint)")
        case None
        with rq \<open>getDefinition tys (tn_name request) = Inr d\<close> g Inr assms show ?thesis
          by (simp add: validateEndpoint_def LOG_def)
      next
        case (Some spec)
        obtain ws where "reconcile (tn_name request) fp spec = Inr ws"
          using reconcile_Inr by blast
        with Some rq \<open>getDefinition tys (tn_name request) = Inr d\<close> g Inr assms show ?thesis
          by (simp add: validateEndpoint_def LOG_def)
      qed
      ultimately show ?thesis using rq
        by (auto simp: thrown_at_def unresolved_undefined_request)
    qed
  qed
qed

lemma validateEndpoints_thrown:
  "validateEndpoints fuel tys jsonSpec eps log = Some (log', Inl e) \<Longrightarrow>
     \<exists>endpoint \<in> set eps. thrown_at tys jsonSpec e endpoint"
proof (induction eps arbitrary: log)
  case Nil
  then show ?case by simp
next
  case (Cons endpoint eps)
  from Cons.prems obtain r where r: "validateEndpoint fuel tys jsonSpec endpoint = Some r"
    by (cases "validateEndpoint fuel tys jsonSpec endpoint") auto
  show ?case
  proof (cases r)
    case (Inl e')
    with r Cons.prems have "e' = e" by simp
    with r Inl validateEndpoint_thrown show ?thesis by auto
  next
    case (Inr ws)
    with r Cons.prems
    have "validateEndpoints fuel tys jsonSpec eps (log @ ws) = Some (log', Inl e)" by simp
    from Cons.IH[OF this] show ?thesis by auto
  qed
qed

text \<open>
  Claim C6 (not as stated). The pass should throw if and only if some endpoint with a
  non-null request has an undefined request name or no entry in the JSON spec. In
  \<open>loopModel\<close> no endpoint is of that kind, so the pass should return the model; its
  request inherits from itself, and the flattening, which has no cycle guard, makes the
  pass run without end (in the interpreter, until the call stack is exhausted): there is
  no number of nested calls with which it returns.
\<close>

theorem C6_counterexample:
  "\<not> (\<exists>endpoint \<in> set (endpoints loopModel). \<exists>request. ep_request endpoint = Some request
         \<and> (undefined_request (types loopModel) (tn_name request)
              \<or> loopJson (ep_name endpoint) = None))
   \<and> (\<forall>fuel. validateRestSpec fuel loopModel loopJson = None)"
proof
  let ?tys = "[RequestOrInterface reqLoop]"
  have named: "entity_named ?tys ''Loop'' = Some reqLoop" by code_simp
  have inh: "declared_inherits reqLoop = [ext ''Loop'']"
    by (simp add: declared_inherits_def reqLoop_def)
  have parent: "p = reqLoop" if "parent_entity ?tys reqLoop p" for p
    using that named by (simp add: parent_entity_def inh ext_def tn_def)
  have anc: "a = reqLoop" if "ancestor_or_self ?tys reqLoop a" for a
  proof -
    from that have "(parent_entity ?tys)\<^sup>*\<^sup>* reqLoop a" by (simp add: ancestor_or_self_def)
    then show ?thesis by (induction rule: rtranclp_induct) (auto dest: parent)
  qed
  have "\<not> missing_parent ?tys reqLoop"
    using named by (simp add: missing_parent_def inh ext_def tn_def)
  with anc have "\<not> undefined_request ?tys ''Loop''"
    using named by (auto simp: undefined_request_def)
  then show "\<not> (\<exists>endpoint \<in> set (endpoints loopModel). \<exists>request. ep_request endpoint = Some request
         \<and> (undefined_request (types loopModel) (tn_name request)
              \<or> loopJson (ep_name endpoint) = None))"
    by (simp add: loopModel_def loopJson_def mkEndpoint_def tn_def)
  have "getDefinition ?tys ''Loop'' = Inr reqLoop" by code_simp
  then show "\<forall>fuel. validateRestSpec fuel loopModel loopJson = None"
    by (simp add: validateRestSpec_def validateEndpoint_def loopModel_def mkEndpoint_def tn_def
        self_inheriting_diverges)
qed

text \<open>
  Claim C6, amended. On a model whose inherits relation is acyclic, the pass comes to
  an end (with enough nested calls, and with the same outcome for any greater number),
  and it ends by throwing if and only if some endpoint with a non-null request has a
  request name for which no entity of kind request or interface exists, directly or
  through an inherits reference, or has no entry under its name in the JSON spec. The
  error thrown is the one called for by such an endpoint: \<open>DefinitionNotFound\<close> of an
  undeclared name, or \<open>SpecNotFound\<close> of the endpoint's name. Endpoints with a null
  request are not among those endpoints, and no warning makes the pass throw.
\<close>

theorem C6_throws_iff_acyclic:
  assumes "acyclic_inheritance (types model)"
  shows "\<exists>fuel log res.
      (\<forall>fuel'. fuel \<le> fuel' \<longrightarrow> validateRestSpec fuel' model jsonSpec = Some (log, res))
    \<and> ((\<exists>e. res = Inl e) \<longleftrightarrow>
          (\<exists>endpoint \<in> set (endpoints model). \<exists>request. ep_request endpoint = Some request
             \<and> (undefined_request (types model) (tn_name request)
                  \<or> jsonSpec (ep_name endpoint) = None)))
    \<and> (\<forall>e. res = Inl e \<longrightarrow>
          (\<exists>endpoint \<in> set (endpoints model). thrown_at (types model) jsonSpec e endpoint))"
proof -
  from assms have "acyclic (inherits_rel (types model))" by (simp add: acyclic_inheritance_rel)
  from validateRestSpec_returns[OF this] obtain fuel x
    where all: "\<forall>fuel'. fuel \<le> fuel' \<longrightarrow> validateRestSpec fuel' model jsonSpec = Some x" by blast
  obtain log res where x: "x = (log, res)" by (cases x)
  from all x have here: "validateRestSpec fuel model jsonSpec = Some (log, res)" by simp
  then obtain res' where
    v: "validateEndpoints fuel (types model) jsonSpec (endpoints model) [] = Some (log, res')"
    and rel: "\<And>e. res = Inl e \<longleftrightarrow> res' = Inl e"
    by (auto simp: validateRestSpec_def split: option.splits sum.splits)
  have isl: "isl res' \<longleftrightarrow> (\<exists>e. res = Inl e)" using rel by (cases res') auto
  have iff: "(\<exists>e. res = Inl e) \<longleftrightarrow>
          (\<exists>endpoint \<in> set (endpoints model). \<exists>request. ep_request endpoint = Some request
             \<and> (undefined_request (types model) (tn_name request)
                  \<or> jsonSpec (ep_name endpoint) = None))"
    using validateEndpoints_error_iff[OF v] isl
    unfolding fatal_def unresolved_undefined_request by simp
  have thrown: "\<forall>e. res = Inl e \<longrightarrow>
          (\<exists>endpoint \<in> set (endpoints model). thrown_at (types model) jsonSpec e endpoint)"
  proof (intro allI impI)
    fix e assume "res = Inl e"
    then have "res' = Inl e" using rel by simp
    with v have "validateEndpoints fuel (types model) jsonSpec (endpoints model) [] = Some (log, Inl e)"
      by simp
    then show "\<exists>endpoint \<in> set (endpoints model). thrown_at (types model) jsonSpec e endpoint"
      by (rule validateEndpoints_thrown)
  qed
  from all x iff thrown show ?thesis by blast
qed

theorem C6_witness:
  "validateRestSpec 3 specModel treeJson
     = Some ([QueryNotInSpec ''Top'' ''pretty'', QueryNotInSpec ''Top'' ''routing'',
              QueryNotInModel ''Top'' ''timeout''],
             Inl (SpecNotFound ''nospec''))
   \<and> (\<exists>endpoint \<in> set (endpoints specModel).
         thrown_at (types specModel) treeJson (SpecNotFound ''nospec'') endpoint)
   \<and> validateRestSpec 3 orphanModel treeJson = Some ([], Inl (DefinitionNotFound ''Nowhere''))
   \<and> (\<exists>endpoint \<in> set (endpoints orphanModel).
         thrown_at (types orphanModel) treeJson (DefinitionNotFound ''Nowhere'') endpoint)
   \<and> validateRestSpec 3 ifaceModel treeJson
       = Some ([QueryNotInSpec ''CommonQuery'' ''pretty'', QueryNotInModel ''CommonQuery'' ''human''],
               Inr ifaceModel)
   \<and> \<not> (\<exists>endpoint \<in> set (endpoints ifaceModel). \<exists>request. ep_request endpoint = Some request
         \<and> (undefined_request (types ifaceModel) (tn_name request)
              \<or> treeJson (ep_name endpoint) = None))"
proof -
  have s: "validateRestSpec 3 specModel treeJson
     = Some ([QueryNotInSpec ''Top'' ''pretty'', QueryNotInSpec ''Top'' ''routing'',
              QueryNotInModel ''Top'' ''timeout''],
             Inl (SpecNotFound ''nospec''))"
    by code_simp
  have o: "validateRestSpec 3 orphanModel treeJson = Some ([], Inl (DefinitionNotFound ''Nowhere''))"
    by code_simp
  have i: "validateRestSpec 3 ifaceModel treeJson
       = Some ([QueryNotInSpec ''CommonQuery'' ''pretty'', QueryNotInModel ''CommonQuery'' ''human''],
               Inr ifaceModel)"
    by code_simp
  have as: "acyclic_inheritance (types specModel)"
    and ao: "acyclic_inheritance (types orphanModel)"
    and ai: "acyclic_inheritance (types ifaceModel)"
    using acyclic_treeTypes by (simp_all add: specModel_def orphanModel_def ifaceModel_def)
  from C6_throws_iff_acyclic[OF as, of treeJson] obtain fuel1 log1 res1
    where 1: "\<forall>fuel'. fuel1 \<le> fuel' \<longrightarrow> validateRestSpec fuel' specModel treeJson = Some (log1, res1)"
      and t1: "\<forall>e. res1 = Inl e \<longrightarrow>
          (\<exists>endpoint \<in> set (endpoints specModel). thrown_at (types specModel) treeJson e endpoint)"
    by blast
  from validateRestSpec_stable[OF 1 s] t1
  have w1: "\<exists>endpoint \<in> set (endpoints specModel).
         thrown_at (types specModel) treeJson (SpecNotFound ''nospec'') endpoint"
    by simp
  from C6_throws_iff_acyclic[OF ao, of treeJson] obtain fuel2 log2 res2
    where 2: "\<forall>fuel'. fuel2 \<le> fuel' \<longrightarrow> validateRestSpec fuel' orphanModel treeJson = Some (log2, res2)"
      and t2: "\<forall>e. res2 = Inl e \<longrightarrow>
          (\<exists>endpoint \<in> set (endpoints orphanModel). thrown_at (types orphanModel) treeJson e endpoint)"
    by blast
  from validateRestSpec_stable[OF 2 o] t2
  have w2: "\<exists>endpoint \<in> set (endpoints orphanModel).
         thrown_at (types orphanModel) treeJson (DefinitionNotFound ''Nowhere'') endpoint"
    by simp
  from C6_throws_iff_acyclic[OF ai, of treeJson] obtain fuel3 log3 res3
    where 3: "\<forall>fuel'. fuel3 \<le> fuel' \<longrightarrow> validateRestSpec fuel' ifaceModel treeJson = Some (log3, res3)"
      and t3: "(\<exists>e. res3 = Inl e) \<longleftrightarrow>
          (\<exists>endpoint \<in> set (endpoints ifaceModel). \<exists>request. ep_request endpoint = Some request
             \<and> (undefined_request (types ifaceModel) (tn_name request)
                  \<or> treeJson (ep_name endpoint) = None))"
    by blast
  from validateRestSpec_stable[OF 3 i] t3
  have w3: "\<not> (\<exists>endpoint \<in> set (endpoints ifaceModel). \<exists>request. ep_request endpoint = Some request
         \<and> (undefined_request (types ifaceModel) (tn_name request)
              \<or> treeJson (ep_name endpoint) = None))"
    by auto
  from s w1 o w2 i w3 show ?thesis by blast
qed

section \<open>The model is left as it was\<close>

subsection \<open>The arrays that exist before the pass\<close>

lemma new_array_frame:
  "new_array h = (a, h') \<Longrightarrow> a = length h \<and> length h' = Suc (length h) \<and> take (length h) h' = h"
  by (auto simp: new_array_def)

lemma push_frame:
  "n \<le> a \<Longrightarrow> take n (push h a xs) = take n h"
  by (simp add: push_def)

lemma length_push [simp]: "length (push h a xs) = length h"
  by (simp add: push_def)

lemma pushAll_frame: "n \<le> target \<Longrightarrow> take n (pushAll h target source) = take n h"
  by (simp add: pushAll_def push_frame)

lemma length_pushAll [simp]: "length (pushAll h target source) = length h"
  by (simp add: pushAll_def)

lemma ownPropertiesS_frame:
  assumes "ownPropertiesS d h = (r, h')"
  shows "take (length h) h' = h \<and> length h' = Suc (Suc (length h))
       \<and> fr_path r = length h \<and> fr_query r = Suc (length h)"
proof (cases d)
  case (RequestRef req)
  with assms show ?thesis
    by (auto simp: new_array_def Let_def pushAll_frame)
next
  case (InterfaceRef iface)
  with assms show ?thesis
    by (auto simp: new_array_def Let_def pushAll_frame)
qed

lemma absorbS_frame:
  assumes "absorbS acc p h = (acc', h')" and "n \<le> fr_path acc" and "n \<le> fr_query acc"
  shows "take n h' = take n h \<and> length h' = length h
       \<and> fr_path acc' = fr_path acc \<and> fr_query acc' = fr_query acc"
  using assms by (auto simp: absorbS_def Let_def pushAll_frame)

lemma take_extends:
  assumes "take (length h) h' = h" and "n \<le> length h"
  shows "take n h' = take n h"
proof -
  have "take n (take (length h) h') = take n h'"
    using assms(2) by (simp add: min_absorb1)
  then show ?thesis unfolding assms(1) by simp
qed

lemma extends_length:
  assumes "take (length h) h' = h"
  shows "length h \<le> length h'"
proof -
  have "length (take (length h) h') = length h"
    using assms by (rule arg_cong)
  then show ?thesis by simp
qed

lemma inheritLoopS_frame:
  assumes rec: "\<And>d h h' r. rec d h = Some (h', r) \<Longrightarrow> take (length h) h' = h"
  shows "inheritLoopS rec ds acc h = Some (h', r) \<Longrightarrow> n \<le> length h \<Longrightarrow>
           n \<le> fr_path acc \<Longrightarrow> n \<le> fr_query acc \<Longrightarrow> take n h' = take n h"
proof (induction ds arbitrary: acc h)
  case Nil
  then show ?case by simp
next
  case (Cons d ds)
  from Cons.prems(1) obtain h1 r1 where r1: "rec d h = Some (h1, r1)"
    by (cases "rec d h") auto
  from rec[OF r1] have ext: "take (length h) h1 = h" .
  then have t1: "take n h1 = take n h" using Cons.prems(2) by (rule take_extends)
  have l1: "length h \<le> length h1" using ext by (rule extends_length)
  show ?case
  proof (cases r1)
    case (Inl e)
    with r1 Cons.prems(1) have "h' = h1" by simp
    with t1 show ?thesis by simp
  next
    case (Inr p)
    obtain acc' h2 where a: "absorbS acc p h1 = (acc', h2)" by (cases "absorbS acc p h1")
    with r1 Inr Cons.prems(1) have loop: "inheritLoopS rec ds acc' h2 = Some (h', r)" by simp
    from absorbS_frame[OF a Cons.prems(3,4)]
    have t2: "take n h2 = take n h1" and l2: "length h2 = length h1"
      and pa: "fr_path acc' = fr_path acc" and qa: "fr_query acc' = fr_query acc" by simp_all
    have "take n h' = take n h2"
      using loop by (rule Cons.IH) (use Cons.prems l1 l2 pa qa in simp_all)
    with t2 t1 show ?thesis by simp
  qed
qed

lemma getPropertiesS_frame:
  "getPropertiesS fuel tys d h = Some (h', r) \<Longrightarrow> take (length h) h' = h"
proof (induction fuel arbitrary: d h h' r)
  case 0
  then show ?case by simp
next
  case (Suc fuel)
  obtain own h1 where own: "ownPropertiesS d h = (own, h1)" by (cases "ownPropertiesS d h")
  from ownPropertiesS_frame[OF own]
  have e1: "take (length h) h1 = h" and l1: "length h1 = Suc (Suc (length h))"
    and pa: "fr_path own = length h" and qa: "fr_query own = Suc (length h)" by simp_all
  show ?case
  proof (cases "obj_inherits d")
    case None
    with own Suc.prems e1 show ?thesis by simp
  next
    case (Some inhs)
    show ?thesis
    proof (cases "getDefinitionsS tys inhs")
      case (Inl e)
      with Some own Suc.prems e1 show ?thesis by simp
    next
      case (Inr ds)
      with Some own Suc.prems
      have loop: "inheritLoopS (getPropertiesS fuel tys) ds own h1 = Some (h', r)" by simp
      have "take (length h) h' = take (length h) h1"
        using Suc.IH loop by (rule inheritLoopS_frame) (simp_all add: l1 pa qa)
      with e1 show ?thesis by simp
    qed
  qed
qed

lemma validateEndpointS_frame:
  assumes "validateEndpointS fuel tys jsonSpec endpoint h = Some (h', r)"
  shows "take (length h) h' = h"
proof (cases "ep_request endpoint")
  case None
  with assms show ?thesis by (simp add: validateEndpointS_def)
next
  case (Some request)
  show ?thesis
  proof (cases "getDefinitionS tys (tn_name request)")
    case (Inl e)
    with Some assms show ?thesis by (simp add: validateEndpointS_def)
  next
    case (Inr d)
    with Some assms obtain h1 g where g: "getPropertiesS fuel tys d h = Some (h1, g)"
      by (cases "getPropertiesS fuel tys d h") (auto simp: validateEndpointS_def)
    with Some Inr assms have "h' = h1"
      by (cases g; cases "jsonSpec (ep_name endpoint)")
         (simp_all add: validateEndpointS_def LOG_def)
    with getPropertiesS_frame[OF g] show ?thesis by simp
  qed
qed

lemma validateEndpointsS_frame:
  "validateEndpointsS fuel tys jsonSpec eps log h = Some (h', log', r) \<Longrightarrow>
     take (length h) h' = h"
proof (induction eps arbitrary: log h)
  case Nil
  then show ?case by simp
next
  case (Cons endpoint eps)
  from Cons.prems obtain h1 r1 where r1: "validateEndpointS fuel tys jsonSpec endpoint h = Some (h1, r1)"
    by (cases "validateEndpointS fuel tys jsonSpec endpoint h") auto
  from validateEndpointS_frame[OF r1] have e1: "take (length h) h1 = h" .
  show ?case
  proof (cases r1)
    case (Inl e)
    with r1 Cons.prems e1 show ?thesis by simp
  next
    case (Inr ws)
    with r1 Cons.prems
    have "validateEndpointsS fuel tys jsonSpec eps (log @ ws) h1 = Some (h', log', r)" by simp
    from Cons.IH[OF this] have "take (length h1) h' = h1" .
    then have "take (length h) h' = take (length h) h1"
      using extends_length[OF e1] by (rule take_extends)
    with e1 show ?thesis by simp
  qed
qed

text \<open>
  Claim C8. When the pass completes without throwing, it returns the reference to the
  model it was given, and every array that existed before the pass, the arrays of the
  model among them, has the contents it had: the store after the pass is the store
  before it, followed by the arrays that the pass allocated. The pushes only reach
  those. The JSON spec is only read and holds no array of \<^verbatim>\<open>Property\<close>.
\<close>

theorem C8_model_unchanged:
  assumes "validateRestSpecS fuel model jsonSpec h = Some (h', log, Inr model')"
  shows "model' = model \<and> take (length h) h' = h"
proof -
  from assms obtain u where
    v: "validateEndpointsS fuel (mo_types model) jsonSpec (mo_endpoints model) [] h
          = Some (h', log, Inr u)"
    and m: "model' = model"
    by (auto simp: validateRestSpecS_def split: option.splits sum.splits)
  from validateEndpointsS_frame[OF v] m show ?thesis by simp
qed

theorem C8_witness:
  "validateRestSpecS 2 smallModel exJson smallStore
     = Some (smallStore @ [[mkProp ''id''], [mkProp ''refresh''], [mkProp ''id''], []],
             [PathNotInSpec ''S'' ''id'', PathNotInModel ''S'' ''index''],
             Inr smallModel)
   \<and> take (length smallStore)
        (smallStore @ [[mkProp ''id''], [mkProp ''refresh''], [mkProp ''id''], []]) = smallStore"
proof -
  have v: "validateRestSpecS 2 smallModel exJson smallStore
     = Some (smallStore @ [[mkProp ''id''], [mkProp ''refresh''], [mkProp ''id''], []],
             [PathNotInSpec ''S'' ''id'', PathNotInModel ''S'' ''index''],
             Inr smallModel)"
    by code_simp
  from C8_model_unchanged[OF v] v show ?thesis by simp
qed

subsection \<open>The store model and the value model agree\<close>

text \<open>
  When the references of the model point into the store, the pass over the store
  prints the same log and has the same outcome as the pass over the values
  (\<open>validateRestSpecS_refines\<close>): the theorems about \<open>validateRestSpec\<close> speak about the
  same runs.
\<close>

lemma contents_extends:
  assumes "take (length h0) h = h0" and "a < length h0"
  shows "contents h a = contents h0 a"
proof -
  have "length h0 \<le> length h" using assms(1) by (rule extends_length)
  moreover have "take (length h0) h ! a = h ! a" using assms(2) by simp
  ultimately show ?thesis using assms by (simp add: contents_def)
qed

lemma absDefinition_extends:
  assumes "take (length h0) h = h0" and "\<forall>a \<in> set (addresses d). a < length h0"
  shows "absDefinition h d = absDefinition h0 d"
  using assms by (cases d) (simp_all add: contents_extends)

lemma contents_push:
  "a < length h \<Longrightarrow> contents (push h a xs) b = (if b = a then contents h a @ xs else contents h b)"
  by (simp add: contents_def push_def)

lemma contents_pushAll:
  "a < length h \<Longrightarrow>
     contents (pushAll h a s) b = (if b = a then contents h a @ contents h s else contents h b)"
  by (simp add: pushAll_def contents_push)

lemma contents_new:
  "contents (h @ [[], []]) a = (if a < length h then contents h a else [])"
  by (auto simp: contents_def nth_append less_Suc_eq)

lemma ownPropertiesS_refines:
  assumes "ownPropertiesS d h = (own, h1)" and "\<forall>a \<in> set (addresses d). a < length h"
  shows "flattened h1 own = ownProperties (absDefinition h d)"
proof (cases d)
  case (RequestRef req)
  with assms(2) have a: "ro_path req < length h" "ro_query req < length h" by simp_all
  from assms(1) RequestRef have own: "own = \<lparr> fr_path = length h, fr_query = Suc (length h),
       fr_body = (if ro_body req \<noteq> None then yesBody else noBody) \<rparr>"
    and h1: "h1 = pushAll (pushAll (h @ [[], []]) (length h) (ro_path req))
                    (Suc (length h)) (ro_query req)"
    by (auto simp: new_array_def Let_def)
  show ?thesis
    unfolding own h1 RequestRef using a
    by (simp add: flattened_def contents_pushAll contents_new)
next
  case (InterfaceRef iface)
  with assms(2) have a: "io_properties iface < length h" by simp
  from assms(1) InterfaceRef have own: "own = \<lparr> fr_path = length h, fr_query = Suc (length h),
       fr_body = noBody \<rparr>"
    and h1: "h1 = pushAll (h @ [[], []]) (Suc (length h)) (io_properties iface)"
    by (auto simp: new_array_def Let_def)
  show ?thesis
    unfolding own h1 InterfaceRef using a
    by (simp add: flattened_def contents_pushAll contents_new)
qed

lemma absorbS_refines:
  assumes "absorbS acc p h = (acc', h')"
    and "fr_path acc < length h" "fr_query acc < length h" "fr_path acc \<noteq> fr_query acc"
    and "fr_path p \<noteq> fr_path acc" "fr_path p \<noteq> fr_query acc"
    and "fr_query p \<noteq> fr_path acc" "fr_query p \<noteq> fr_query acc"
  shows "flattened h' acc' = absorb (flattened h acc) (flattened h p)"
  using assms
  by (auto simp: absorbS_def Let_def flattened_def absorb_def contents_pushAll)

lemma getDefinitionS_mem:
  "getDefinitionS tys name = Inr d \<Longrightarrow> RequestOrInterfaceRef d \<in> set tys"
  by (induction tys name rule: getDefinitionS.induct) (auto split: if_splits)

lemma obj_name_abs [simp]: "def_name (absDefinition h d) = obj_name d"
  by (cases d) simp_all

lemma obj_inherits_abs [simp]: "def_inherits (absDefinition h d) = obj_inherits d"
  by (cases d) simp_all

lemma getDefinitionS_refines:
  "getDefinition (map (absType h0) tys) name = map_sum id (absDefinition h0) (getDefinitionS tys name)"
  by (induction tys name rule: getDefinitionS.induct) simp_all

lemma getDefinitionsS_refines:
  "getDefinitions (map (absType h0) tys) inhs
     = map_sum id (map (absDefinition h0)) (getDefinitionsS tys inhs)"
  by (induction inhs) (auto simp: getDefinitionS_refines split: sum.splits)

lemma getDefinitionsS_mem:
  "getDefinitionsS tys inhs = Inr ds \<Longrightarrow> d \<in> set ds \<Longrightarrow> RequestOrInterfaceRef d \<in> set tys"
  by (induction inhs arbitrary: ds) (auto split: sum.splits dest: getDefinitionS_mem)

lemma inheritLoopS_addresses:
  "inheritLoopS rec ds acc h = Some (h', Inr r) \<Longrightarrow>
     fr_path r = fr_path acc \<and> fr_query r = fr_query acc"
proof (induction ds arbitrary: acc h)
  case Nil
  then show ?case by simp
next
  case (Cons d ds)
  from Cons.prems obtain h1 p where "rec d h = Some (h1, Inr p)"
    and loop: "inheritLoopS rec ds (fst (absorbS acc p h1)) (snd (absorbS acc p h1)) = Some (h', Inr r)"
    by (auto split: option.splits sum.splits prod.splits)
  from Cons.IH[OF loop] show ?case by (simp add: absorbS_def Let_def)
qed

lemma inheritLoopS_length:
  assumes rec: "\<And>d h h' r. rec d h = Some (h', r) \<Longrightarrow> length h \<le> length h'"
  shows "inheritLoopS rec ds acc h = Some (h', r) \<Longrightarrow> length h \<le> length h'"
proof (induction ds arbitrary: acc h)
  case Nil
  then show ?case by simp
next
  case (Cons d ds)
  from Cons.prems obtain h1 r1 where r1: "rec d h = Some (h1, r1)"
    by (cases "rec d h") auto
  from rec[OF r1] have l1: "length h \<le> length h1" .
  show ?case
  proof (cases r1)
    case (Inl e)
    with r1 Cons.prems l1 show ?thesis by simp
  next
    case (Inr p)
    with r1 Cons.prems
    have loop: "inheritLoopS rec ds (fst (absorbS acc p h1)) (snd (absorbS acc p h1)) = Some (h', r)"
      by (simp split: prod.splits)
    from Cons.IH[OF loop] l1 show ?thesis by (simp add: absorbS_def Let_def)
  qed
qed

lemma getPropertiesS_length:
  "getPropertiesS fuel tys d h = Some (h', r) \<Longrightarrow> length h \<le> length h'"
  using getPropertiesS_frame extends_length by blast

lemma getPropertiesS_addresses:
  assumes "getPropertiesS fuel tys d h = Some (h', Inr r)"
  shows "fr_path r = length h \<and> fr_query r = Suc (length h) \<and> Suc (Suc (length h)) \<le> length h'"
proof (cases fuel)
  case 0
  with assms show ?thesis by simp
next
  case (Suc n)
  obtain own h1 where own: "ownPropertiesS d h = (own, h1)" by (cases "ownPropertiesS d h")
  from ownPropertiesS_frame[OF own]
  have l1: "length h1 = Suc (Suc (length h))"
    and pa: "fr_path own = length h" and qa: "fr_query own = Suc (length h)" by simp_all
  show ?thesis
  proof (cases "obj_inherits d")
    case None
    with own Suc assms l1 pa qa show ?thesis by auto
  next
    case (Some inhs)
    with own Suc assms obtain ds where
      loop: "inheritLoopS (getPropertiesS n tys) ds own h1 = Some (h', Inr r)"
      by (auto split: sum.splits)
    from inheritLoopS_addresses[OF loop] pa qa
    have "fr_path r = length h" "fr_query r = Suc (length h)" by simp_all
    moreover have "length h1 \<le> length h'"
      using loop by (rule inheritLoopS_length[rotated]) (rule getPropertiesS_length)
    ultimately show ?thesis using l1 by simp
  qed
qed

lemma flattened_extends:
  assumes "take (length h) h1 = h" and "fr_path acc < length h" and "fr_query acc < length h"
  shows "flattened h1 acc = flattened h acc"
  using assms by (simp add: flattened_def contents_extends)

lemma inheritLoopS_refines:
  assumes frame: "\<And>d h h' r. rec d h = Some (h', r) \<Longrightarrow> take (length h) h' = h"
    and addr: "\<And>d h h' r. rec d h = Some (h', Inr r) \<Longrightarrow>
        fr_path r = length h \<and> fr_query r = Suc (length h) \<and> Suc (Suc (length h)) \<le> length h'"
    and ref: "\<And>d h. d \<in> set ds \<Longrightarrow> take (length h0) h = h0 \<Longrightarrow> absResult (rec d h) = recP (A d)"
  shows "take (length h0) h = h0 \<Longrightarrow> length h0 \<le> fr_path acc \<Longrightarrow> length h0 \<le> fr_query acc \<Longrightarrow>
         fr_path acc < length h \<Longrightarrow> fr_query acc < length h \<Longrightarrow> fr_path acc \<noteq> fr_query acc \<Longrightarrow>
         absResult (inheritLoopS rec ds acc h) = inheritLoop recP (map A ds) (flattened h acc)"
  using ref
proof (induction ds arbitrary: acc h)
  case Nil
  then show ?case by (simp add: absResult_def)
next
  case (Cons d ds)
  have here: "absResult (rec d h) = recP (A d)"
    using Cons.prems(1) by (intro Cons.prems(7)) simp_all
  show ?case
  proof (cases "rec d h")
    case None
    with here[symmetric] have "recP (A d) = None" by (simp add: absResult_def)
    with None show ?thesis by (simp add: absResult_def)
  next
    case (Some x)
    obtain h1 r1 where x: "x = (h1, r1)" by (cases x)
    from frame[OF Some[unfolded x]] have e1: "take (length h) h1 = h" .
    have l1: "length h \<le> length h1" using e1 by (rule extends_length)
    have l0: "length h0 \<le> length h" using Cons.prems(1) by (rule extends_length)
    have t1: "take (length h0) h1 = h0"
      using take_extends[OF e1 l0] Cons.prems(1) by simp
    show ?thesis
    proof (cases r1)
      case (Inl e)
      from Some x Inl here[symmetric] have "recP (A d) = Some (Inl e)"
        by (simp add: absResult_def)
      with Some x Inl show ?thesis by (simp add: absResult_def)
    next
      case (Inr p)
      from Some x Inr here[symmetric] have recP: "recP (A d) = Some (Inr (flattened h1 p))"
        by (simp add: absResult_def)
      from addr[OF Some[unfolded x Inr]]
      have pp: "fr_path p = length h" and qp: "fr_query p = Suc (length h)"
        and l2: "Suc (Suc (length h)) \<le> length h1" by simp_all
      obtain acc' h2 where a: "absorbS acc p h1 = (acc', h2)" by (cases "absorbS acc p h1")
      from absorbS_frame[OF a Cons.prems(2,3)]
      have t2: "take (length h0) h2 = take (length h0) h1" and len2: "length h2 = length h1"
        and pa: "fr_path acc' = fr_path acc" and qa: "fr_query acc' = fr_query acc" by simp_all
      have fl: "flattened h2 acc' = absorb (flattened h1 acc) (flattened h1 p)"
        using a by (rule absorbS_refines) (use Cons.prems(4,5,6) l1 pp qp in simp_all)
      have fl1: "flattened h1 acc = flattened h acc"
        using e1 Cons.prems(4,5) by (rule flattened_extends)
      have "absResult (inheritLoopS rec ds acc' h2)
          = inheritLoop recP (map A ds) (flattened h2 acc')"
      proof (rule Cons.IH)
        show "take (length h0) h2 = h0" using t2 t1 by simp
        show "length h0 \<le> fr_path acc'" "length h0 \<le> fr_query acc'"
          using pa qa Cons.prems(2,3) by simp_all
        show "fr_path acc' < length h2" "fr_query acc' < length h2"
          using pa qa len2 l1 Cons.prems(4,5) by simp_all
        show "fr_path acc' \<noteq> fr_query acc'" using pa qa Cons.prems(6) by simp
        show "\<And>d' h'. d' \<in> set ds \<Longrightarrow> take (length h0) h' = h0 \<Longrightarrow> absResult (rec d' h') = recP (A d')"
          using Cons.prems(7) by simp
      qed
      with Some x Inr a recP fl fl1 show ?thesis by simp
    qed
  qed
qed

lemma getPropertiesS_refines:
  assumes alloc: "allocated h0 tys"
  shows "take (length h0) h = h0 \<Longrightarrow> RequestOrInterfaceRef d \<in> set tys \<Longrightarrow>
           absResult (getPropertiesS fuel tys d h)
             = getProperties fuel (map (absType h0) tys) (absDefinition h0 d)"
proof (induction fuel arbitrary: d h)
  case 0
  then show ?case by (simp add: absResult_def)
next
  case (Suc fuel)
  have l0: "length h0 \<le> length h" using Suc.prems(1) by (rule extends_length)
  from alloc Suc.prems(2) have ad0: "\<forall>a \<in> set (addresses d). a < length h0"
    by (simp add: allocated_def)
  then have ad: "\<forall>a \<in> set (addresses d). a < length h" using l0 by auto
  obtain own h1 where own: "ownPropertiesS d h = (own, h1)" by (cases "ownPropertiesS d h")
  from ownPropertiesS_frame[OF own]
  have e1: "take (length h) h1 = h" and l1: "length h1 = Suc (Suc (length h))"
    and pa: "fr_path own = length h" and qa: "fr_query own = Suc (length h)" by simp_all
  have fo: "flattened h1 own = ownProperties (absDefinition h0 d)"
    using ownPropertiesS_refines[OF own ad] absDefinition_extends[OF Suc.prems(1) ad0] by simp
  have t1: "take (length h0) h1 = h0"
    using take_extends[OF e1 l0] Suc.prems(1) by simp
  show ?case
  proof (cases "obj_inherits d")
    case None
    with own fo show ?thesis by (simp add: absResult_def)
  next
    case (Some inhs)
    show ?thesis
    proof (cases "getDefinitionsS tys inhs")
      case (Inl e)
      with Some own show ?thesis by (simp add: absResult_def getDefinitionsS_refines)
    next
      case (Inr ds)
      have "absResult (inheritLoopS (getPropertiesS fuel tys) ds own h1)
          = inheritLoop (getProperties fuel (map (absType h0) tys)) (map (absDefinition h0) ds)
              (flattened h1 own)"
      proof (rule inheritLoopS_refines)
        show "\<And>d h h' r. getPropertiesS fuel tys d h = Some (h', r) \<Longrightarrow> take (length h) h' = h"
          by (rule getPropertiesS_frame)
        show "\<And>d h h' r. getPropertiesS fuel tys d h = Some (h', Inr r) \<Longrightarrow>
            fr_path r = length h \<and> fr_query r = Suc (length h) \<and> Suc (Suc (length h)) \<le> length h'"
          by (rule getPropertiesS_addresses)
        show "\<And>d h. d \<in> set ds \<Longrightarrow> take (length h0) h = h0 \<Longrightarrow>
            absResult (getPropertiesS fuel tys d h)
              = getProperties fuel (map (absType h0) tys) (absDefinition h0 d)"
          using Suc.IH getDefinitionsS_mem[OF Inr] by blast
        show "take (length h0) h1 = h0" by (rule t1)
        show "length h0 \<le> fr_path own" "length h0 \<le> fr_query own" using pa qa l0 by simp_all
        show "fr_path own < length h1" "fr_query own < length h1" using pa qa l1 by simp_all
        show "fr_path own \<noteq> fr_query own" using pa qa by simp
      qed
      with Some Inr own fo show ?thesis by (simp add: getDefinitionsS_refines)
    qed
  qed
qed

lemma validateEndpointS_refines:
  assumes "allocated h0 tys" and "take (length h0) h = h0"
  shows "map_option snd (validateEndpointS fuel tys jsonSpec endpoint h)
           = validateEndpoint fuel (map (absType h0) tys) jsonSpec endpoint"
proof (cases "ep_request endpoint")
  case None
  then show ?thesis by (simp add: validateEndpointS_def validateEndpoint_def)
next
  case (Some request)
  show ?thesis
  proof (cases "getDefinitionS tys (tn_name request)")
    case (Inl e)
    with Some show ?thesis
      by (simp add: validateEndpointS_def validateEndpoint_def getDefinitionS_refines)
  next
    case (Inr d)
    then have "RequestOrInterfaceRef d \<in> set tys" by (rule getDefinitionS_mem)
    from getPropertiesS_refines[OF assms(1,2) this, of fuel]
    have g: "getProperties fuel (map (absType h0) tys) (absDefinition h0 d)
        = absResult (getPropertiesS fuel tys d h)" by simp
    show ?thesis
    proof (cases "getPropertiesS fuel tys d h")
      case None
      with Some Inr g show ?thesis
        by (simp add: validateEndpointS_def validateEndpoint_def getDefinitionS_refines
            absResult_def)
    next
      case (Some x)
      obtain h1 r1 where x: "x = (h1, r1)" by (cases x)
      with Some \<open>ep_request endpoint = Some request\<close> Inr g show ?thesis
        by (cases r1; cases "jsonSpec (ep_name endpoint)")
           (simp_all add: validateEndpointS_def validateEndpoint_def getDefinitionS_refines
              absResult_def LOG_def)
    qed
  qed
qed

lemma validateEndpointsS_refines:
  assumes "allocated h0 tys"
  shows "take (length h0) h = h0 \<Longrightarrow>
           map_option snd (validateEndpointsS fuel tys jsonSpec eps log h)
             = validateEndpoints fuel (map (absType h0) tys) jsonSpec eps log"
proof (induction eps arbitrary: log h)
  case Nil
  then show ?case by simp
next
  case (Cons endpoint eps)
  note here = validateEndpointS_refines[OF assms Cons.prems, of fuel jsonSpec endpoint, symmetric]
  show ?case
  proof (cases "validateEndpointS fuel tys jsonSpec endpoint h")
    case None
    with here show ?thesis by simp
  next
    case (Some x)
    obtain h1 r1 where x: "x = (h1, r1)" by (cases x)
    from validateEndpointS_frame[OF Some[unfolded x]] have e1: "take (length h) h1 = h" .
    have t1: "take (length h0) h1 = h0"
      using take_extends[OF e1 extends_length[OF Cons.prems]] Cons.prems by simp
    show ?thesis
    proof (cases r1)
      case (Inl e)
      with Some x here show ?thesis by simp
    next
      case (Inr ws)
      with Some x here Cons.IH[OF t1, of "log @ ws"] show ?thesis by simp
    qed
  qed
qed

lemma validateRestSpecS_refines:
  assumes "allocated h (mo_types model)"
  shows "map_option (\<lambda>(h', log, res). (log, map_sum id (absModel h) res))
           (validateRestSpecS fuel model jsonSpec h)
         = validateRestSpec fuel (absModel h model) jsonSpec"
proof -
  have "validateEndpoints fuel (map (absType h) (mo_types model)) jsonSpec (mo_endpoints model) []
      = map_option snd
          (validateEndpointsS fuel (mo_types model) jsonSpec (mo_endpoints model) [] h)"
    using validateEndpointsS_refines[OF assms, of h fuel jsonSpec "mo_endpoints model" "[]"]
    by simp
  then show ?thesis
    by (cases "validateEndpointsS fuel (mo_types model) jsonSpec (mo_endpoints model) [] h")
       (auto simp: validateRestSpecS_def validateRestSpec_def absModel_def split: sum.splits)
qed

end
